theory Spec2Isabelle
  imports Main "HOL-Library.AList"
begin

section \<open>Data model of \<open>src/components/products/VariantSelector.tsx\<close>\<close>

text \<open>
  The records follow the TypeScript interfaces of the component. Identities and display
  strings are \<open>string\<close>; a nullable field is an \<open>option\<close>. The three numeric fields
  (\<open>price\<close>, \<open>stock_quantity\<close>, \<open>sort_order\<close>) are integers: the component only
  compares \<open>stock_quantity\<close> with zero and orders attributes by \<open>sort_order\<close>.
  Field names carry a prefix where the source reuses \<open>id\<close>, \<open>name\<close> and \<open>value\<close>.
\<close>

record product_attributes =
  pa_id :: string
  pa_name :: string
  pa_icon_url :: "string option"
  pa_sort_order :: "int option"

record product_attribute_values =
  pav_id :: string
  pav_value :: string
  attribute_id :: string
  product_attributes :: product_attributes

record VariantAttributeValue =
  attribute_value_id :: string
  product_attribute_values :: product_attribute_values

record ProductVariant =
  variant_id :: string
  product_id :: string
  price :: int
  stock_quantity :: int
  is_available :: bool
  image_urls :: "string list option"
  product_variant_values :: "VariantAttributeValue list"

text \<open>
  \<open>selectedAttributes\<close> is a JavaScript object used as a dictionary from attribute id to
  value id. It is an association list in insertion order: \<open>Object.entries\<close> is the list
  itself, \<open>obj[k]\<close> is \<open>map_of\<close> (\<open>None\<close> for \<open>undefined\<close>), and both the spread
  \<open>{ ...obj, [k]: v }\<close> and the assignment \<open>obj[k] = v\<close> are \<open>AList.update\<close>, which
  overwrites in place or appends. The keys are database identifiers; the results below
  are about the entries and the lookups of a selection, not about their order.
\<close>

type_synonym selection = "(string \<times> string) list"

datatype error = TypeError

text \<open>JavaScript truthiness of an optional string: \<open>undefined\<close> and \<open>""\<close> are falsy.\<close>

definition truthy :: "string option \<Rightarrow> bool" where
  "truthy x = (case x of None \<Rightarrow> False | Some s \<Rightarrow> s \<noteq> [])"

text \<open>
  The test the source writes inline, in every resolver, as
  \<open>v.product_variant_values.some(pvv => pvv.product_attribute_values.attribute_id === a
  && pvv.product_attribute_values.id === x)\<close>.
\<close>

definition carries :: "ProductVariant \<Rightarrow> string \<Rightarrow> string \<Rightarrow> bool" where
  "carries v attrId valId =
     list_ex (\<lambda>pvv. attribute_id (product_attribute_values pvv) = attrId \<and>
                     pav_id (product_attribute_values pvv) = valId)
             (product_variant_values v)"

section \<open>Availability resolver\<close>

text \<open>
  The \<open>for ... of Object.entries(selectedAttributes)\<close> loop of \<open>isValueAvailable\<close> and
  \<open>isValueOutOfStock\<close>, with its \<open>continue\<close> and its early \<open>return false\<close>; falling
  out of the loop is \<open>return true\<close>.
\<close>

fun matchesOthers :: "ProductVariant \<Rightarrow> string \<Rightarrow> selection \<Rightarrow> bool" where
  "matchesOthers variant attributeId [] = True"
| "matchesOthers variant attributeId ((key, selectedVal) # rest) =
     (if key = attributeId then matchesOthers variant attributeId rest
      else if \<not> carries variant key selectedVal then False
      else matchesOthers variant attributeId rest)"

text \<open>The callback both helpers pass to \<open>variants.some\<close> and \<open>variants.filter\<close>.\<close>

definition compatible :: "selection \<Rightarrow> string \<Rightarrow> string \<Rightarrow> ProductVariant \<Rightarrow> bool" where
  "compatible selectedAttributes attributeId valueId variant =
     (let hasTarget = carries variant attributeId valueId
      in if \<not> hasTarget then False
         else matchesOthers variant attributeId selectedAttributes)"

definition isValueAvailable ::
  "ProductVariant list \<Rightarrow> selection \<Rightarrow> string \<Rightarrow> string \<Rightarrow> bool" where
  "isValueAvailable variants selectedAttributes attributeId valueId =
     list_ex (compatible selectedAttributes attributeId valueId) variants"

definition isValueOutOfStock ::
  "ProductVariant list \<Rightarrow> selection \<Rightarrow> string \<Rightarrow> string \<Rightarrow> bool" where
  "isValueOutOfStock variants selectedAttributes attributeId valueId =
     (let matchingVariants = filter (compatible selectedAttributes attributeId valueId) variants
      in if length matchingVariants = 0 then False
         else list_all (\<lambda>v. stock_quantity v = 0 \<or> \<not> is_available v) matchingVariants)"

section \<open>Smart-switch resolver\<close>

text \<open>
  The inner \<open>Object.entries(selectedAttributes).forEach\<close> of \<open>handleSelect\<close>: the number
  of entries, other than the one being changed, that the candidate carries.
\<close>

definition countMatches :: "ProductVariant \<Rightarrow> string \<Rightarrow> selection \<Rightarrow> int" where
  "countMatches candidate attributeId selectedAttributes =
     fold (\<lambda>(key, val) matches.
             if key = attributeId then matches
             else if carries candidate key val then matches + 1 else matches)
          selectedAttributes 0"

text \<open>
  The body of \<open>candidates.forEach\<close>: the state is \<open>(bestCandidate, maxMatches)\<close>, and a
  candidate replaces the best one only on a strictly greater count.
\<close>

definition considerCandidate ::
  "string \<Rightarrow> selection \<Rightarrow> ProductVariant \<Rightarrow> ProductVariant \<times> int \<Rightarrow> ProductVariant \<times> int" where
  "considerCandidate attributeId selectedAttributes candidate st =
     (let matches = countMatches candidate attributeId selectedAttributes
      in if matches > snd st then (candidate, matches) else st)"

text \<open>
  \<open>newResolvedSelection\<close>: one assignment per entry of the variant, in order, so a later
  entry for the same attribute overwrites an earlier one.
\<close>

definition resolvedSelection :: "ProductVariant \<Rightarrow> selection" where
  "resolvedSelection bestCandidate =
     fold (\<lambda>pvv sel. AList.update (attribute_id (product_attribute_values pvv))
                                   (pav_id (product_attribute_values pvv)) sel)
          (product_variant_values bestCandidate) []"

text \<open>
  \<open>handleSelect\<close> returns the argument of the \<open>setSelectedAttributes\<close> call it makes.
  \<open>variants\<close> is the query's \<open>data\<close>, \<open>undefined\<close> until the catalog has loaded, and
  \<open>variants.some\<close> on \<open>undefined\<close> throws. \<open>candidates[0]\<close> is read only after the
  test that the array is not empty, and \<open>maxMatches\<close> starts at \<open>-1\<close>.
\<close>

definition handleSelect ::
  "ProductVariant list option \<Rightarrow> selection \<Rightarrow> string \<Rightarrow> string \<Rightarrow> error + selection" where
  "handleSelect variants selectedAttributes attributeId valueId =
     (case variants of
        None \<Rightarrow> Inl TypeError
      | Some vs \<Rightarrow>
          let nextSelection = AList.update attributeId valueId selectedAttributes;
              hasExactMatch =
                list_ex (\<lambda>v. list_all (\<lambda>(attrId, valId). carries v attrId valId) nextSelection) vs
          in if hasExactMatch then Inr nextSelection
             else
               let candidates = filter (\<lambda>v. carries v attributeId valueId) vs
               in (case candidates of
                     [] \<Rightarrow> Inr [(attributeId, valueId)]
                   | c0 # _ \<Rightarrow>
                       let (bestCandidate, maxMatches) =
                             fold (considerCandidate attributeId selectedAttributes)
                                  candidates (c0, - 1)
                       in Inr (resolvedSelection bestCandidate)))"

section \<open>Attribute index builder\<close>

text \<open>
  An entry of the derived index. The record is polymorphic in its \<open>values\<close> field: while
  the index is built it is a \<open>Map\<close> from value id to value (an association list in
  insertion order), and the final \<open>.map\<close> turns it into an array.
\<close>

record attr_value =
  av_id :: string
  av_value :: string
  av_sort_order :: int

record 'vs attr =
  attr_id :: string
  attr_name :: string
  attr_icon_url :: "string option"
  attr_sort_order :: int
  attr_values :: 'vs

type_synonym attr_acc = "(string \<times> attr_value) list attr"
type_synonym attr_entry = "attr_value list attr"

text \<open>\<open>Map.prototype.has\<close> on an association list.\<close>

definition has :: "('k \<times> 'v) list \<Rightarrow> 'k \<Rightarrow> bool" where
  "has m k = (map_of m k \<noteq> None)"

text \<open>
  The body of the inner \<open>forEach\<close> of \<open>productAttributes\<close>. \<open>attr.sort_order || 0\<close> turns
  \<open>null\<close> into \<open>0\<close>. \<open>attributesMap.get(attr.id)!\<close> is never \<open>undefined\<close>, the key having
  just been set; the entry is mutated in place, which here is writing it back under its key.
\<close>

definition collectValue ::
  "VariantAttributeValue \<Rightarrow> (string \<times> attr_acc) list \<Rightarrow> (string \<times> attr_acc) list" where
  "collectValue pvv attributesMap =
     (let attrVal = product_attribute_values pvv;
          attr = product_attributes attrVal;
          attributesMap1 =
            (if \<not> has attributesMap (pa_id attr)
             then AList.update (pa_id attr)
                    \<lparr>attr_id = pa_id attr, attr_name = pa_name attr,
                     attr_icon_url = pa_icon_url attr,
                     attr_sort_order = (case pa_sort_order attr of None \<Rightarrow> 0 | Some n \<Rightarrow> n),
                     attr_values = []\<rparr>
                    attributesMap
             else attributesMap)
      in case map_of attributesMap1 (pa_id attr) of
           None \<Rightarrow> attributesMap1
         | Some attrEntry \<Rightarrow>
             if \<not> has (attr_values attrEntry) (pav_id attrVal)
             then AList.update (pa_id attr)
                    (attrEntry\<lparr>attr_values :=
                       AList.update (pav_id attrVal)
                         \<lparr>av_id = pav_id attrVal, av_value = pav_value attrVal, av_sort_order = 0\<rparr>
                         (attr_values attrEntry)\<rparr>)
                    attributesMap1
             else attributesMap1)"

definition collectVariant ::
  "ProductVariant \<Rightarrow> (string \<times> attr_acc) list \<Rightarrow> (string \<times> attr_acc) list" where
  "collectVariant variant attributesMap =
     fold collectValue (product_variant_values variant) attributesMap"

text \<open>
  \<open>Array.prototype.sort\<close> with the comparator \<open>a.sort_order - b.sort_order\<close> is a
  stable ascending sort on the key, as \<open>sort_key\<close> is.
\<close>

definition productAttributes :: "ProductVariant list option \<Rightarrow> attr_entry list" where
  "productAttributes variants =
     (case variants of
        None \<Rightarrow> []
      | Some vs \<Rightarrow>
          let attributesMap = fold collectVariant vs []
          in map (\<lambda>a. \<lparr>attr_id = attr_id a, attr_name = attr_name a,
                        attr_icon_url = attr_icon_url a, attr_sort_order = attr_sort_order a,
                        attr_values = map snd (attr_values a)\<rparr>)
                 (sort_key attr_sort_order (map snd attributesMap)))"

section \<open>Variant match resolver\<close>

text \<open>\<open>Array.prototype.join\<close>.\<close>

fun join :: "string \<Rightarrow> string list \<Rightarrow> string" where
  "join sep [] = []"
| "join sep [x] = x"
| "join sep (x # y # ys) = x @ sep @ join sep (y # ys)"

text \<open>
  The variant-match effect. The result is the argument list of the \<open>onVariantChange\<close>
  call, or \<open>None\<close> when the effect returns without calling it.
\<close>

type_synonym report = "ProductVariant option \<times> string \<times> string"

definition variantMatch ::
  "ProductVariant list option \<Rightarrow> attr_entry list \<Rightarrow> selection \<Rightarrow> report option" where
  "variantMatch variants productAttrs selectedAttributes =
     (case variants of
        None \<Rightarrow> None
      | Some vs \<Rightarrow>
          if length productAttrs = 0 then None
          else
            let allAttributesSelected =
                  list_all (\<lambda>a. truthy (map_of selectedAttributes (attr_id a))) productAttrs
            in if allAttributesSelected then
                 (let matchedVariant =
                        find (\<lambda>variant.
                                list_all (\<lambda>a. case map_of selectedAttributes (attr_id a) of
                                                 None \<Rightarrow> False
                                               | Some selectedValueId \<Rightarrow>
                                                   carries variant (attr_id a) selectedValueId)
                                         productAttrs)
                             vs
                  in case matchedVariant of
                       Some mv \<Rightarrow>
                         let attrNames = join '', '' (map attr_name productAttrs);
                             valueNames =
                               join '', ''
                                 (map (\<lambda>a. case map_of selectedAttributes (attr_id a) of
                                              None \<Rightarrow> []
                                            | Some valId \<Rightarrow>
                                                (case find (\<lambda>v. av_id v = valId) (attr_values a) of
                                                   None \<Rightarrow> []
                                                 | Some v \<Rightarrow> av_value v))
                                      productAttrs)
                         in Some (Some mv, attrNames, valueNames)
                     | None \<Rightarrow> Some (None, [], []))
               else Some (None, [], []))"

section \<open>Auto-select rule\<close>

text \<open>
  The auto-select effect; the result is the value of \<open>selectedAttributes\<close> after it.
  The state of the \<open>forEach\<close> is \<open>(newSelection, changed)\<close>. \<open>attr.values[0]\<close> is read
  only where the array has exactly one element.
\<close>

definition autoSelectStep :: "attr_entry \<Rightarrow> selection \<times> bool \<Rightarrow> selection \<times> bool" where
  "autoSelectStep a st =
     (case attr_values a of
        [v] \<Rightarrow> if \<not> truthy (map_of (fst st) (attr_id a))
               then (AList.update (attr_id a) (av_id v) (fst st), True)
               else st
      | _ \<Rightarrow> st)"

definition autoSelect :: "attr_entry list \<Rightarrow> selection \<Rightarrow> selection" where
  "autoSelect productAttrs selectedAttributes =
     (if length productAttrs > 0 then
        (let (newSelection, changed) = fold autoSelectStep productAttrs (selectedAttributes, False)
         in if changed then newSelection else selectedAttributes)
      else selectedAttributes)"

section \<open>The component as a state machine\<close>

text \<open>
  The state of a mounted \<open>VariantSelector\<close>: the query's \<open>data\<close>, the
  \<open>selectedAttributes\<close> state, and the catalog for which the auto-select effect last ran
  (\<open>None\<close> before the first render). \<open>productAttributes\<close> is memoised on \<open>variants\<close> and
  is the effect's only dependency, so the effect runs on the first render and on every
  render in which \<open>variants\<close> has changed, and on no other.
\<close>

record component =
  st_variants :: "ProductVariant list option"
  st_selected :: selection
  st_effectDeps :: "ProductVariant list option option"

definition initial :: component where
  "initial = \<lparr>st_variants = None, st_selected = [], st_effectDeps = None\<rparr>"

definition render :: "component \<Rightarrow> component" where
  "render s =
     (if st_effectDeps s = Some (st_variants s) then s
      else s\<lparr>st_selected := autoSelect (productAttributes (st_variants s)) (st_selected s),
             st_effectDeps := Some (st_variants s)\<rparr>)"

text \<open>
  The (attribute id, value id) pairs of the index, in order: the component renders one
  button for each.
\<close>

definition index_pairs :: "attr_entry list \<Rightarrow> (string \<times> string) list" where
  "index_pairs productAttrs =
     concat (map (\<lambda>a. map (\<lambda>v. (attr_id a, av_id v)) (attr_values a)) productAttrs)"

text \<open>
  The states a mounted component reaches: it renders; the query delivers another
  catalog (a refetch, or another \<open>productId\<close>) and it renders again; the user clicks a
  button, which exists only once a non-empty catalog has loaded, and it renders again.
\<close>

inductive reachable :: "component \<Rightarrow> bool" where
  mount: "reachable (render initial)"
| rerender: "reachable s \<Longrightarrow> reachable (render s)"
| reload: "reachable s \<Longrightarrow> reachable (render (s\<lparr>st_variants := data\<rparr>))"
| click: "reachable s \<Longrightarrow> st_variants s = Some vs \<Longrightarrow> vs \<noteq> [] \<Longrightarrow>
          (a, x) \<in> set (index_pairs (productAttributes (Some vs))) \<Longrightarrow>
          handleSelect (Some vs) (st_selected s) a x = Inr sel' \<Longrightarrow>
          reachable (render (s\<lparr>st_selected := sel'\<rparr>))"




section \<open>Notions of the specification\<close>


text \<open>
  The assignment set of a variant: its (attribute id, value id) pairs, the attribute being
  named by \<open>attribute_id\<close>, the field every resolver compares.
\<close>

definition assignments :: "ProductVariant \<Rightarrow> (string \<times> string) set" where
  "assignments v =
     (\<lambda>pvv. (attribute_id (product_attribute_values pvv), pav_id (product_attribute_values pvv)))
       ` set (product_variant_values v)"

text \<open>
  The compatibility filter of the availability resolver: the variant carries the tested
  pair and agrees with the selection on every other attribute the selection holds.
\<close>

definition agrees :: "selection \<Rightarrow> string \<Rightarrow> string \<Rightarrow> ProductVariant \<Rightarrow> bool" where
  "agrees S a x variant \<longleftrightarrow>
     (a, x) \<in> assignments variant \<and>
     (\<forall>(k, y) \<in> set S. k \<noteq> a \<longrightarrow> (k, y) \<in> assignments variant)"

text \<open>
  The overlap count of the smart switch: how many entries of the selection, other than
  the one for the attribute being changed, the candidate carries.
\<close>

definition overlap :: "ProductVariant \<Rightarrow> string \<Rightarrow> selection \<Rightarrow> nat" where
  "overlap c a S = card {(k, y). (k, y) \<in> set S \<and> k \<noteq> a \<and> (k, y) \<in> assignments c}"

text \<open>
  A full selection holds a value, which the resolver requires to be a non-empty string,
  for every attribute of the index; a variant backs it when, for every attribute of the
  index, it carries the value the selection holds. \<open>value_name\<close> is the display string
  of the value chosen for an attribute.
\<close>

definition full :: "attr_entry list \<Rightarrow> selection \<Rightarrow> bool" where
  "full idx S \<longleftrightarrow>
     (\<forall>e \<in> set idx. case map_of S (attr_id e) of None \<Rightarrow> False | Some y \<Rightarrow> y \<noteq> [])"

definition backs :: "attr_entry list \<Rightarrow> selection \<Rightarrow> ProductVariant \<Rightarrow> bool" where
  "backs idx S v \<longleftrightarrow>
     (\<forall>e \<in> set idx. case map_of S (attr_id e) of
                        None \<Rightarrow> False
                      | Some y \<Rightarrow> (attr_id e, y) \<in> assignments v)"

definition value_name :: "selection \<Rightarrow> attr_entry \<Rightarrow> string" where
  "value_name S e =
     (case map_of S (attr_id e) of
        None \<Rightarrow> []
      | Some y \<Rightarrow> (case find (\<lambda>v. av_id v = y) (attr_values e) of
                    None \<Rightarrow> []
                  | Some v \<Rightarrow> av_value v))"

text \<open>
  The invariants of the data model. A JavaScript object has each key once. A variant has
  at most one value per attribute. The catalog is a join along foreign keys, so the
  \<open>attribute_id\<close> of an assignment is the \<open>id\<close> of the attribute nested in it.
\<close>

definition is_object :: "selection \<Rightarrow> bool" where
  "is_object S = distinct (map fst S)"

definition one_value_per_attribute :: "ProductVariant \<Rightarrow> bool" where
  "one_value_per_attribute v \<longleftrightarrow>
     (\<forall>p \<in> assignments v. \<forall>q \<in> assignments v. fst p = fst q \<longrightarrow> snd p = snd q)"

definition joined :: "ProductVariant \<Rightarrow> bool" where
  "joined v = list_all (\<lambda>pvv. attribute_id (product_attribute_values pvv) =
                               pa_id (product_attributes (product_attribute_values pvv)))
                       (product_variant_values v)"

text \<open>
  The (attribute, value) pairs on a variant as the index builder reads them: the attribute
  is the record nested in the assignment (\<open>product_attributes.id\<close>). On a joined
  catalog they are the assignments.
\<close>

definition attribute_values :: "ProductVariant \<Rightarrow> (string \<times> string) set" where
  "attribute_values v =
     (\<lambda>pvv. (pa_id (product_attributes (product_attribute_values pvv)),
             pav_id (product_attribute_values pvv)))
       ` set (product_variant_values v)"

text \<open>
  The invariant of \<open>attributesMap\<close> while the index is built, and the pairs it holds: keys
  are distinct at both levels and each entry is stored under its own id.
\<close>

definition acc_ok :: "(string \<times> attr_acc) list \<Rightarrow> bool" where
  "acc_ok m \<longleftrightarrow>
     distinct (map fst m) \<and>
     (\<forall>(k, e) \<in> set m. attr_id e = k \<and> distinct (map fst (attr_values e)) \<and>
        (\<forall>(j, v) \<in> set (attr_values e). av_id v = j))"

definition acc_pairs :: "(string \<times> attr_acc) list \<Rightarrow> (string \<times> string) set" where
  "acc_pairs m = {(k, j). \<exists>e. (k, e) \<in> set m \<and> j \<in> fst ` set (attr_values e)}"

section \<open>Example catalogs\<close>

definition mk_value :: "string \<Rightarrow> string \<Rightarrow> string \<Rightarrow> string \<Rightarrow> VariantAttributeValue" where
  "mk_value aid aname vid vname =
     \<lparr>attribute_value_id = vid,
      product_attribute_values =
        \<lparr>pav_id = vid, pav_value = vname, attribute_id = aid,
         product_attributes =
           \<lparr>pa_id = aid, pa_name = aname, pa_icon_url = None, pa_sort_order = None\<rparr>\<rparr>\<rparr>"

definition mk_variant :: "string \<Rightarrow> int \<Rightarrow> VariantAttributeValue list \<Rightarrow> ProductVariant" where
  "mk_variant vid stock pvvs =
     \<lparr>variant_id = vid, product_id = ''p1'', price = 100, stock_quantity = stock,
      is_available = True, image_urls = None, product_variant_values = pvvs\<rparr>"

definition red :: VariantAttributeValue where "red = mk_value ''color'' ''Color'' ''red'' ''Red''"
definition blue :: VariantAttributeValue where "blue = mk_value ''color'' ''Color'' ''blue'' ''Blue''"
definition small :: VariantAttributeValue where "small = mk_value ''size'' ''Size'' ''s'' ''S''"
definition medium :: VariantAttributeValue where "medium = mk_value ''size'' ''Size'' ''m'' ''M''"

text \<open>The catalog of the specification's example: Red/S, Red/M (no stock), Blue/S.\<close>

definition red_s :: ProductVariant where "red_s = mk_variant ''v1'' 2 [red, small]"
definition red_m :: ProductVariant where "red_m = mk_variant ''v2'' 0 [red, medium]"
definition blue_s :: ProductVariant where "blue_s = mk_variant ''v3'' 5 [blue, small]"

definition shirts :: "ProductVariant list" where
  "shirts = [red_s, red_m, blue_s]"

text \<open>A catalog with three attributes, in which a smart switch has tied candidates.\<close>

definition cotton :: VariantAttributeValue where
  "cotton = mk_value ''fabric'' ''Fabric'' ''cotton'' ''Cotton''"
definition wool :: VariantAttributeValue where
  "wool = mk_value ''fabric'' ''Fabric'' ''wool'' ''Wool''"

definition jackets :: "ProductVariant list" where
  "jackets = [mk_variant ''j1'' 1 [red, small, cotton], mk_variant ''j2'' 1 [blue, medium, cotton],
              mk_variant ''j3'' 1 [blue, small, wool], mk_variant ''j4'' 1 [blue, medium, wool]]"

text \<open>
  A variant with no assignments, and a variant whose only value has the empty string as
  its id.
\<close>

definition bare :: ProductVariant where
  "bare = mk_variant ''v0'' 1 []"

definition plain :: ProductVariant where
  "plain = mk_variant ''v9'' 1 [mk_value ''color'' ''Color'' [] ''Default'']"

text \<open>The catalog of another product, which varies in size only.\<close>

definition gloves :: "ProductVariant list" where
  "gloves = [(mk_variant ''g1'' 3 [small])\<lparr>product_id := ''p2''\<rparr>,
             (mk_variant ''g2'' 4 [medium])\<lparr>product_id := ''p2''\<rparr>]"

lemmas example_defs =
  shirts_def red_s_def red_m_def blue_s_def red_def blue_def small_def medium_def
  jackets_def cotton_def wool_def bare_def plain_def gloves_def mk_variant_def mk_value_def

section \<open>Availability resolver: properties\<close>

lemma carries_iff: "carries v a x \<longleftrightarrow> (a, x) \<in> assignments v"
  by (auto simp: carries_def assignments_def list_ex_iff)

lemma matchesOthers_iff:
  "matchesOthers variant a sel \<longleftrightarrow> (\<forall>(k, x) \<in> set sel. k \<noteq> a \<longrightarrow> carries variant k x)"
  by (induction variant a sel rule: matchesOthers.induct) (auto split: if_splits)

lemma compatible_iff: "compatible S a x variant \<longleftrightarrow> agrees S a x variant"
  by (simp add: compatible_def matchesOthers_iff agrees_def carries_iff)

text \<open>
  C2. \<open>isValueAvailable(a, x)\<close> is true exactly when some variant of the catalog carries
  the pair \<open>(a, x)\<close> and, for every other attribute the selection holds, carries the
  value the selection holds; with an empty selection, exactly when some variant carries
  the pair.
\<close>

theorem isValueAvailable_sound:
  "(isValueAvailable variants S a x \<longleftrightarrow>
      (\<exists>variant \<in> set variants.
         (a, x) \<in> assignments variant \<and>
         (\<forall>(k, y) \<in> set S. k \<noteq> a \<longrightarrow> (k, y) \<in> assignments variant))) \<and>
   (isValueAvailable variants [] a x \<longleftrightarrow> (\<exists>variant \<in> set variants. (a, x) \<in> assignments variant))"
  by (simp add: isValueAvailable_def list_ex_iff compatible_iff agrees_def)

theorem isValueAvailable_sound_witness:
  "(\<exists>variant \<in> set shirts.
      (''color'', ''red'') \<in> assignments variant \<and>
      (\<forall>(k, y) \<in> set [(''size'', ''m'')]. k \<noteq> ''color'' \<longrightarrow> (k, y) \<in> assignments variant)) \<and>
   \<not> (\<exists>variant \<in> set shirts.
      (''color'', ''blue'') \<in> assignments variant \<and>
      (\<forall>(k, y) \<in> set [(''size'', ''m'')]. k \<noteq> ''color'' \<longrightarrow> (k, y) \<in> assignments variant))"
proof -
  have yes: "isValueAvailable shirts [(''size'', ''m'')] ''color'' ''red''"
    by code_simp
  have no: "\<not> isValueAvailable shirts [(''size'', ''m'')] ''color'' ''blue''"
    by code_simp
  from yes no show ?thesis
    using isValueAvailable_sound [of shirts "[(''size'', ''m'')]" "''color''" "''red''"]
          isValueAvailable_sound [of shirts "[(''size'', ''m'')]" "''color''" "''blue''"]
    by blast
qed

text \<open>
  C4. \<open>isValueOutOfStock(a, x)\<close> is true exactly when the set of variants that carry
  \<open>(a, x)\<close> and agree with the selection on every other attribute is non-empty and each of
  its members has stock quantity zero or the availability flag false; so it is false
  when no compatible variant exists.
\<close>

theorem isValueOutOfStock_precise:
  "(isValueOutOfStock variants S a x \<longleftrightarrow>
      {v \<in> set variants. agrees S a x v} \<noteq> {} \<and>
      (\<forall>v \<in> {v \<in> set variants. agrees S a x v}. stock_quantity v = 0 \<or> \<not> is_available v)) \<and>
   ({v \<in> set variants. agrees S a x v} = {} \<longrightarrow> \<not> isValueOutOfStock variants S a x)"
  by (auto simp: isValueOutOfStock_def Let_def compatible_iff list_all_iff filter_empty_conv)

theorem isValueOutOfStock_precise_witness:
  "({v \<in> set shirts. agrees [(''color'', ''red'')] ''size'' ''m'' v} \<noteq> {} \<and>
    \<not> (\<exists>v \<in> {v \<in> set shirts. agrees [(''color'', ''red'')] ''size'' ''m'' v}.
          stock_quantity v \<noteq> 0 \<and> is_available v)) \<and>
   {v \<in> set shirts. agrees [(''color'', ''blue'')] ''size'' ''m'' v} = {} \<and>
   \<not> isValueOutOfStock shirts [(''color'', ''blue'')] ''size'' ''m''"
proof -
  have out: "isValueOutOfStock shirts [(''color'', ''red'')] ''size'' ''m''"
    by code_simp
  have none: "{v \<in> set shirts. agrees [(''color'', ''blue'')] ''size'' ''m'' v} = {}"
    by code_simp
  from out none show ?thesis
    using isValueOutOfStock_precise [of shirts "[(''color'', ''red'')]" "''size''" "''m''"]
          isValueOutOfStock_precise [of shirts "[(''color'', ''blue'')]" "''size''" "''m''"]
    by blast
qed

section \<open>Smart-switch resolver: properties\<close>

lemma exact_iff:
  "list_all (\<lambda>(k, y). carries v k y) S \<longleftrightarrow> (\<forall>(k, y) \<in> set S. (k, y) \<in> assignments v)"
  by (auto simp: list_all_iff carries_iff)

lemma update_mem: "(a, x) \<in> set (AList.update a x S)"
  by (induction S) auto

lemma object_entries: "is_object S \<Longrightarrow> (k, y) \<in> set S \<longleftrightarrow> map_of S k = Some y"
  by (simp add: is_object_def)

lemma object_update: "is_object S \<Longrightarrow> is_object (AList.update a x S)"
  by (simp add: is_object_def distinct_update)

lemma merged_iff:
  assumes "is_object S"
  shows "(\<forall>k y. ((map_of S)(a \<mapsto> x)) k = Some y \<longrightarrow> (k, y) \<in> A) \<longleftrightarrow>
         (a, x) \<in> A \<and> (\<forall>(k, y) \<in> set S. k \<noteq> a \<longrightarrow> (k, y) \<in> A)"
proof -
  have e: "\<And>k y. (k, y) \<in> set S \<longleftrightarrow> map_of S k = Some y"
    by (rule object_entries [OF assms])
  show ?thesis
    by (auto simp: e split: if_splits)
qed

lemma exact_merged:
  assumes "is_object S"
  shows "list_all (\<lambda>(k, y). carries v k y) (AList.update a x S) \<longleftrightarrow>
         (\<forall>k y. ((map_of S)(a \<mapsto> x)) k = Some y \<longrightarrow> (k, y) \<in> assignments v)"
proof -
  have "\<And>k y. (k, y) \<in> set (AList.update a x S) \<longleftrightarrow> ((map_of S)(a \<mapsto> x)) k = Some y"
    using object_entries [OF object_update [OF assms], of _ _ a x]
    by (simp add: update_conv')
  then show ?thesis
    unfolding exact_iff by blast
qed

lemma fold_count:
  "fold (\<lambda>(key, val) matches.
             if key = a then matches
             else if carries c key val then matches + 1 else matches) S (n::int) =
   n + int (length (filter (\<lambda>(k, y). k \<noteq> a \<and> carries c k y) S))"
  by (induction S arbitrary: n) (auto split: prod.splits)

lemma countMatches_overlap:
  assumes "is_object S"
  shows "countMatches c a S = int (overlap c a S)"
proof -
  have d: "distinct S"
    using assms by (simp add: is_object_def distinct_map)
  have "set (filter (\<lambda>(k, y). k \<noteq> a \<and> carries c k y) S) =
        {(k, y). (k, y) \<in> set S \<and> k \<noteq> a \<and> (k, y) \<in> assignments c}"
    by (auto simp: carries_iff)
  moreover have "card (set (filter (\<lambda>(k, y). k \<noteq> a \<and> carries c k y) S)) =
                 length (filter (\<lambda>(k, y). k \<noteq> a \<and> carries c k y) S)"
    by (rule distinct_card) (rule distinct_filter [OF d])
  ultimately have "overlap c a S = length (filter (\<lambda>(k, y). k \<noteq> a \<and> carries c k y) S)"
    by (simp add: overlap_def)
  then show ?thesis
    by (simp add: countMatches_def fold_count)
qed

lemma considerCandidate_pair:
  "considerCandidate a S c (b, m) =
     (if countMatches c a S > m then (c, countMatches c a S) else (b, m))"
  by (simp add: considerCandidate_def)

lemma fold_considerCandidate:
  "fold (considerCandidate a S) cs (b, m) = (w, m') \<Longrightarrow>
     (w = b \<and> m' = m \<and> (\<forall>c \<in> set cs. countMatches c a S \<le> m)) \<or>
     (\<exists>pre post. cs = pre @ w # post \<and> m' = countMatches w a S \<and> m < m' \<and>
        (\<forall>c \<in> set pre. countMatches c a S < m') \<and>
        (\<forall>c \<in> set post. countMatches c a S \<le> m'))"
proof (induction cs arbitrary: b m)
  case Nil
  then show ?case by simp
next
  case (Cons c cs)
  show ?case
  proof (cases "countMatches c a S > m")
    case True
    with Cons.prems have "fold (considerCandidate a S) cs (c, countMatches c a S) = (w, m')"
      by (simp add: considerCandidate_pair)
    from Cons.IH [OF this] show ?thesis
    proof
      assume "w = c \<and> m' = countMatches c a S \<and> (\<forall>c' \<in> set cs. countMatches c' a S \<le> countMatches c a S)"
      with True have "c # cs = [] @ w # cs \<and> m' = countMatches w a S \<and> m < m' \<and>
        (\<forall>c \<in> set []. countMatches c a S < m') \<and> (\<forall>c \<in> set cs. countMatches c a S \<le> m')"
        by simp
      then show ?thesis by blast
    next
      assume "\<exists>pre post. cs = pre @ w # post \<and> m' = countMatches w a S \<and> countMatches c a S < m' \<and>
        (\<forall>c \<in> set pre. countMatches c a S < m') \<and> (\<forall>c \<in> set post. countMatches c a S \<le> m')"
      then obtain pre post where p: "cs = pre @ w # post" "m' = countMatches w a S"
        "countMatches c a S < m'" "\<forall>c \<in> set pre. countMatches c a S < m'"
        "\<forall>c \<in> set post. countMatches c a S \<le> m'"
        by blast
      with True have "c # cs = (c # pre) @ w # post \<and> m' = countMatches w a S \<and> m < m' \<and>
        (\<forall>c \<in> set (c # pre). countMatches c a S < m') \<and> (\<forall>c \<in> set post. countMatches c a S \<le> m')"
        by simp
      then show ?thesis by blast
    qed
  next
    case False
    with Cons.prems have "fold (considerCandidate a S) cs (b, m) = (w, m')"
      by (simp add: considerCandidate_pair)
    from Cons.IH [OF this] show ?thesis
    proof
      assume "w = b \<and> m' = m \<and> (\<forall>c \<in> set cs. countMatches c a S \<le> m)"
      with False show ?thesis by simp
    next
      assume "\<exists>pre post. cs = pre @ w # post \<and> m' = countMatches w a S \<and> m < m' \<and>
        (\<forall>c \<in> set pre. countMatches c a S < m') \<and> (\<forall>c \<in> set post. countMatches c a S \<le> m')"
      then obtain pre post where p: "cs = pre @ w # post" "m' = countMatches w a S"
        "m < m'" "\<forall>c \<in> set pre. countMatches c a S < m'"
        "\<forall>c \<in> set post. countMatches c a S \<le> m'"
        by blast
      with False have "c # cs = (c # pre) @ w # post \<and> m' = countMatches w a S \<and> m < m' \<and>
        (\<forall>c \<in> set (c # pre). countMatches c a S < m') \<and> (\<forall>c \<in> set post. countMatches c a S \<le> m')"
        by simp
      then show ?thesis by blast
    qed
  qed
qed

lemma countMatches_nonneg: "0 \<le> countMatches c a S"
  by (simp add: countMatches_def fold_count)


text \<open>The winner of the loop over a non-empty candidate list.\<close>

lemma best_candidate:
  assumes "fold (considerCandidate a S) (c0 # cs) (c0, - 1) = (w, m')"
  shows "\<exists>pre post. c0 # cs = pre @ w # post \<and>
           (\<forall>c \<in> set pre. countMatches c a S < countMatches w a S) \<and>
           (\<forall>c \<in> set post. countMatches c a S \<le> countMatches w a S)"
proof -
  have "\<not> (\<forall>c \<in> set (c0 # cs). countMatches c a S \<le> - 1)"
    using countMatches_nonneg [of c0 a S] by auto
  with fold_considerCandidate [OF assms] show ?thesis
    by blast
qed

lemma filter_split:
  "filter P xs = pre @ w # post \<Longrightarrow>
   \<exists>pre' post'. xs = pre' @ w # post' \<and> P w \<and> filter P pre' = pre \<and> filter P post' = post"
proof (induction xs arbitrary: pre)
  case Nil
  then show ?case by simp
next
  case (Cons y ys)
  show ?case
  proof (cases "P y")
    case False
    with Cons.prems have "filter P ys = pre @ w # post" by simp
    from Cons.IH [OF this] obtain pre' post' where
      "ys = pre' @ w # post'" "P w" "filter P pre' = pre" "filter P post' = post"
      by blast
    with False have "y # ys = (y # pre') @ w # post' \<and> P w \<and> filter P (y # pre') = pre \<and>
      filter P post' = post"
      by simp
    then show ?thesis by blast
  next
    case True
    show ?thesis
    proof (cases pre)
      case Nil
      with True Cons.prems have "y # ys = [] @ w # ys \<and> P w \<and> filter P [] = pre \<and>
        filter P ys = post"
        by simp
      then show ?thesis by blast
    next
      case (Cons p ps)
      with True Cons.prems have "filter P ys = ps @ w # post" and py: "y = p" by auto
      from Cons.IH [OF this(1)] obtain pre' post' where
        "ys = pre' @ w # post'" "P w" "filter P pre' = ps" "filter P post' = post"
        by blast
      with True Cons py have "y # ys = (y # pre') @ w # post' \<and> P w \<and>
        filter P (y # pre') = pre \<and> filter P post' = post"
        by simp
      then show ?thesis by blast
    qed
  qed
qed

text \<open>The selection built from the winning candidate.\<close>

lemma fold_update_map_of:
  "map_of (fold (\<lambda>p. AList.update (f p) (g p)) ps acc) =
   map_of acc ++ map_of (rev (map (\<lambda>p. (f p, g p)) ps))"
proof (induction ps arbitrary: acc)
  case Nil
  then show ?case by simp
next
  case (Cons p ps)
  let ?M = "map_of (rev (map (\<lambda>p. (f p, g p)) ps))"
  have "map_of (fold (\<lambda>p. AList.update (f p) (g p)) (p # ps) acc) =
        map_of (AList.update (f p) (g p) acc) ++ ?M"
    by (simp add: Cons.IH)
  also have "\<dots> = (map_of acc)(f p \<mapsto> g p) ++ ?M"
    by (simp only: update_conv')
  also have "\<dots> = map_of acc ++ ([f p \<mapsto> g p] ++ ?M)"
    by (rule ext) (simp add: map_add_def split: option.splits)
  also have "[f p \<mapsto> g p] ++ ?M = map_of (rev (map (\<lambda>p. (f p, g p)) (p # ps)))"
    by simp
  finally show ?case .
qed

lemma fold_update_distinct:
  "distinct (map fst acc) \<Longrightarrow> distinct (map fst (fold (\<lambda>p. AList.update (f p) (g p)) ps acc))"
  by (induction ps arbitrary: acc) (simp_all add: distinct_update)

lemma resolvedSelection_object: "is_object (resolvedSelection w)"
  by (simp add: is_object_def resolvedSelection_def fold_update_distinct)

lemma resolvedSelection_map_of:
  "map_of (resolvedSelection w) k = Some y \<Longrightarrow> (k, y) \<in> assignments w"
proof -
  assume "map_of (resolvedSelection w) k = Some y"
  then have "map_of (rev (map (\<lambda>pvv. (attribute_id (product_attribute_values pvv),
                                        pav_id (product_attribute_values pvv)))
                              (product_variant_values w))) k = Some y"
    by (simp add: resolvedSelection_def fold_update_map_of)
  from map_of_SomeD [OF this] show ?thesis
    by (auto simp: assignments_def)
qed

lemma resolvedSelection_dom:
  assumes "(k, y) \<in> assignments w"
  shows "\<exists>y'. map_of (resolvedSelection w) k = Some y'"
proof -
  let ?ps = "rev (map (\<lambda>pvv. (attribute_id (product_attribute_values pvv),
                               pav_id (product_attribute_values pvv)))
                     (product_variant_values w))"
  from assms have "k \<in> fst ` set ?ps"
    by (force simp: assignments_def)
  then have "map_of ?ps k \<noteq> None"
    by (simp add: map_of_eq_None_iff)
  then show ?thesis
    by (auto simp: resolvedSelection_def fold_update_map_of)
qed

lemma resolvedSelection_subset: "set (resolvedSelection w) \<subseteq> assignments w"
  using resolvedSelection_map_of object_entries [OF resolvedSelection_object] by auto

lemma resolvedSelection_exact:
  assumes "one_value_per_attribute w"
  shows "set (resolvedSelection w) = assignments w"
proof
  show "set (resolvedSelection w) \<subseteq> assignments w"
    by (rule resolvedSelection_subset)
  show "assignments w \<subseteq> set (resolvedSelection w)"
  proof
    fix p assume p: "p \<in> assignments w"
    obtain k y where ky: "p = (k, y)" by (cases p)
    with p resolvedSelection_dom obtain y' where y': "map_of (resolvedSelection w) k = Some y'"
      by blast
    then have "(k, y') \<in> assignments w"
      by (rule resolvedSelection_map_of)
    with assms p ky have "y' = y"
      unfolding one_value_per_attribute_def by fastforce
    with y' ky show "p \<in> set (resolvedSelection w)"
      by (simp add: object_entries [OF resolvedSelection_object])
  qed
qed

text \<open>
  C5. When some variant matches the merged selection \<open>S[a := x]\<close> on every attribute
  present in it, \<open>handleSelect\<close> sets the selection to exactly that merge: \<open>a\<close> maps to
  \<open>x\<close> and every other entry of \<open>S\<close> is as it was.
\<close>

theorem handleSelect_compatible_pick:
  assumes "is_object S"
    and "\<exists>variant \<in> set variants.
           \<forall>k y. ((map_of S)(a \<mapsto> x)) k = Some y \<longrightarrow> (k, y) \<in> assignments variant"
  shows "\<exists>S'. handleSelect (Some variants) S a x = Inr S' \<and> is_object S' \<and>
              map_of S' = (map_of S)(a \<mapsto> x)"
proof -
  from assms have "list_ex (\<lambda>v. list_all (\<lambda>(k, y). carries v k y) (AList.update a x S)) variants"
    by (simp add: list_ex_iff exact_merged)
  then have "handleSelect (Some variants) S a x = Inr (AList.update a x S)"
    by (simp add: handleSelect_def)
  with assms(1) show ?thesis
    by (simp add: object_update update_conv')
qed

theorem handleSelect_compatible_pick_witness:
  "\<exists>S'. handleSelect (Some shirts) [(''color'', ''red''), (''size'', ''s'')] ''size'' ''m'' = Inr S' \<and>
        is_object S' \<and>
        map_of S' = (map_of [(''color'', ''red''), (''size'', ''s'')])(''size'' \<mapsto> ''m'')"
proof -
  have obj: "is_object [(''color'', ''red''), (''size'', ''s'')]"
    by code_simp
  have "\<exists>variant \<in> set shirts.
          (''size'', ''m'') \<in> assignments variant \<and>
          (\<forall>(k, y) \<in> set [(''color'', ''red''), (''size'', ''s'')].
             k \<noteq> ''size'' \<longrightarrow> (k, y) \<in> assignments variant)"
    by code_simp
  then have "\<exists>variant \<in> set shirts.
          \<forall>k y. ((map_of [(''color'', ''red''), (''size'', ''s'')])(''size'' \<mapsto> ''m'')) k = Some y \<longrightarrow>
                (k, y) \<in> assignments variant"
    unfolding merged_iff [OF obj] .
  with obj show ?thesis
    by (rule handleSelect_compatible_pick)
qed

text \<open>
  C9. When no variant carries the picked pair \<open>(a, x)\<close> (so that no variant matches the
  merged selection either), \<open>handleSelect\<close> on a loaded catalog does not throw and
  collapses the selection to the single entry \<open>a \<mapsto> x\<close>.
\<close>

theorem handleSelect_no_candidate:
  assumes "\<not> (\<exists>variant \<in> set variants. (a, x) \<in> assignments variant)"
  shows "handleSelect (Some variants) S a x = Inr [(a, x)]"
proof -
  have "\<not> list_ex (\<lambda>v. list_all (\<lambda>(k, y). carries v k y) (AList.update a x S)) variants"
    using assms update_mem [of a x S] by (fastforce simp: list_ex_iff exact_iff)
  moreover have "filter (\<lambda>v. carries v a x) variants = []"
    using assms by (simp add: filter_empty_conv carries_iff)
  ultimately show ?thesis
    by (simp add: handleSelect_def)
qed

theorem handleSelect_no_candidate_witness:
  "handleSelect (Some shirts) [(''color'', ''red''), (''size'', ''s'')] ''size'' ''xl'' =
     Inr [(''size'', ''xl'')]"
proof -
  have "\<not> (\<exists>variant \<in> set shirts. (''size'', ''xl'') \<in> assignments variant)"
    by code_simp
  then show ?thesis
    by (rule handleSelect_no_candidate)
qed

lemma resolvedSelection_keys: "fst ` set (resolvedSelection w) = fst ` assignments w"
proof
  show "fst ` set (resolvedSelection w) \<subseteq> fst ` assignments w"
    using resolvedSelection_subset [of w] by blast
  show "fst ` assignments w \<subseteq> fst ` set (resolvedSelection w)"
  proof
    fix k assume "k \<in> fst ` assignments w"
    then obtain y where "(k, y) \<in> assignments w"
      by auto
    from resolvedSelection_dom [OF this] obtain y' where "map_of (resolvedSelection w) k = Some y'"
      by blast
    then have "(k, y') \<in> set (resolvedSelection w)"
      by (rule map_of_SomeD)
    then show "k \<in> fst ` set (resolvedSelection w)"
      by force
  qed
qed

text \<open>
  C1. When no variant matches the merged selection but some variant carries the picked
  pair \<open>(a, x)\<close>, \<open>handleSelect\<close> replaces the selection with the assignments of a
  variant \<open>w\<close> that carries \<open>(a, x)\<close>, whose overlap with the other entries of the
  selection is the greatest among the variants carrying \<open>(a, x)\<close>, and strictly greater
  than that of every such variant before it in the catalog. The new selection holds one
  value of \<open>w\<close> for each attribute of \<open>w\<close>; as \<open>w\<close> has at most one value per
  attribute, which is the data model's invariant, it is exactly the assignment set of
  \<open>w\<close> and maps \<open>a\<close> to \<open>x\<close>.
\<close>

theorem handleSelect_smart_switch:
  assumes obj: "is_object S"
    and noexact: "\<not> (\<exists>variant \<in> set variants.
                       \<forall>k y. ((map_of S)(a \<mapsto> x)) k = Some y \<longrightarrow> (k, y) \<in> assignments variant)"
    and cand: "\<exists>variant \<in> set variants. (a, x) \<in> assignments variant"
  shows "\<exists>pre w post S'.
           variants = pre @ w # post \<and> (a, x) \<in> assignments w \<and>
           (\<forall>c \<in> set pre. (a, x) \<in> assignments c \<longrightarrow> overlap c a S < overlap w a S) \<and>
           (\<forall>c \<in> set post. (a, x) \<in> assignments c \<longrightarrow> overlap c a S \<le> overlap w a S) \<and>
           handleSelect (Some variants) S a x = Inr S' \<and>
           is_object S' \<and> set S' \<subseteq> assignments w \<and> fst ` set S' = fst ` assignments w \<and>
           (one_value_per_attribute w \<longrightarrow> set S' = assignments w \<and> map_of S' a = Some x)"
proof -
  let ?P = "\<lambda>v. carries v a x"
  from cand have "filter ?P variants \<noteq> []"
    by (simp add: filter_empty_conv carries_iff)
  then obtain c0 cs where cands: "filter ?P variants = c0 # cs"
    by (cases "filter ?P variants") auto
  obtain w m' where best: "fold (considerCandidate a S) (c0 # cs) (c0, - 1) = (w, m')"
    by (cases "fold (considerCandidate a S) (c0 # cs) (c0, - 1)")
  from noexact obj
  have "\<not> list_ex (\<lambda>v. list_all (\<lambda>(k, y). carries v k y) (AList.update a x S)) variants"
    by (simp add: list_ex_iff exact_merged)
  with cands best have result: "handleSelect (Some variants) S a x = Inr (resolvedSelection w)"
    by (simp add: handleSelect_def)
  from best_candidate [OF best] obtain pre post where
    split: "c0 # cs = pre @ w # post" and
    before: "\<forall>c \<in> set pre. countMatches c a S < countMatches w a S" and
    after: "\<forall>c \<in> set post. countMatches c a S \<le> countMatches w a S"
    by blast
  from split cands have "filter ?P variants = pre @ w # post"
    by simp
  from filter_split [OF this] obtain pre' post' where
    cat: "variants = pre' @ w # post'" and w: "carries w a x" and
    pre: "filter ?P pre' = pre" and post: "filter ?P post' = post"
    by blast
  have lt: "\<forall>c \<in> set pre'. (a, x) \<in> assignments c \<longrightarrow> overlap c a S < overlap w a S"
  proof (intro ballI impI)
    fix c assume "c \<in> set pre'" "(a, x) \<in> assignments c"
    with pre have "c \<in> set pre" by (auto simp: carries_iff)
    with before show "overlap c a S < overlap w a S"
      by (simp add: countMatches_overlap [OF obj])
  qed
  have le: "\<forall>c \<in> set post'. (a, x) \<in> assignments c \<longrightarrow> overlap c a S \<le> overlap w a S"
  proof (intro ballI impI)
    fix c assume "c \<in> set post'" "(a, x) \<in> assignments c"
    with post have "c \<in> set post" by (auto simp: carries_iff)
    with after show "overlap c a S \<le> overlap w a S"
      by (simp add: countMatches_overlap [OF obj])
  qed
  from w have wa: "(a, x) \<in> assignments w"
    by (simp add: carries_iff)
  have exact: "set (resolvedSelection w) = assignments w \<and> map_of (resolvedSelection w) a = Some x"
    if "one_value_per_attribute w"
  proof -
    from that have "set (resolvedSelection w) = assignments w"
      by (rule resolvedSelection_exact)
    with wa show ?thesis
      by (simp add: object_entries [OF resolvedSelection_object, symmetric])
  qed
  from cat wa lt le result exact resolvedSelection_object resolvedSelection_subset [of w]
    resolvedSelection_keys [of w]
  show ?thesis
    by blast
qed

theorem handleSelect_smart_switch_witness:
  "\<exists>pre w post S'.
     jackets = pre @ w # post \<and> (''color'', ''blue'') \<in> assignments w \<and>
     (\<forall>c \<in> set pre. (''color'', ''blue'') \<in> assignments c \<longrightarrow>
        overlap c ''color'' [(''color'', ''red''), (''size'', ''s''), (''fabric'', ''cotton'')]
          < overlap w ''color'' [(''color'', ''red''), (''size'', ''s''), (''fabric'', ''cotton'')]) \<and>
     (\<forall>c \<in> set post. (''color'', ''blue'') \<in> assignments c \<longrightarrow>
        overlap c ''color'' [(''color'', ''red''), (''size'', ''s''), (''fabric'', ''cotton'')]
          \<le> overlap w ''color'' [(''color'', ''red''), (''size'', ''s''), (''fabric'', ''cotton'')]) \<and>
     handleSelect (Some jackets) [(''color'', ''red''), (''size'', ''s''), (''fabric'', ''cotton'')]
       ''color'' ''blue'' = Inr S' \<and>
     is_object S' \<and> set S' = assignments w \<and> map_of S' ''color'' = Some ''blue''"
proof -
  let ?S = "[(''color'', ''red''), (''size'', ''s''), (''fabric'', ''cotton'')]"
  have obj: "is_object ?S"
    by code_simp
  have inv: "\<forall>c \<in> set jackets. one_value_per_attribute c"
    by code_simp
  have "\<not> (\<exists>variant \<in> set jackets.
             (''color'', ''blue'') \<in> assignments variant \<and>
             (\<forall>(k, y) \<in> set ?S. k \<noteq> ''color'' \<longrightarrow> (k, y) \<in> assignments variant))"
    by code_simp
  then have noexact: "\<not> (\<exists>variant \<in> set jackets.
      \<forall>k y. ((map_of ?S)(''color'' \<mapsto> ''blue'')) k = Some y \<longrightarrow> (k, y) \<in> assignments variant)"
    unfolding merged_iff [OF obj] .
  have cand: "\<exists>variant \<in> set jackets. (''color'', ''blue'') \<in> assignments variant"
    by code_simp
  from handleSelect_smart_switch [OF obj noexact cand] obtain pre w post S' where
    r: "jackets = pre @ w # post" "(''color'', ''blue'') \<in> assignments w"
      "\<forall>c \<in> set pre. (''color'', ''blue'') \<in> assignments c \<longrightarrow>
         overlap c ''color'' ?S < overlap w ''color'' ?S"
      "\<forall>c \<in> set post. (''color'', ''blue'') \<in> assignments c \<longrightarrow>
         overlap c ''color'' ?S \<le> overlap w ''color'' ?S"
      "handleSelect (Some jackets) ?S ''color'' ''blue'' = Inr S'" "is_object S'"
    and e: "one_value_per_attribute w \<longrightarrow> set S' = assignments w \<and> map_of S' ''color'' = Some ''blue''"
    by blast
  have "w \<in> set (pre @ w # post)"
    by simp
  then have "w \<in> set jackets"
    unfolding r(1) [symmetric] .
  with inv e have "set S' = assignments w \<and> map_of S' ''color'' = Some ''blue''"
    by blast
  with r show ?thesis
    by blast
qed

section \<open>Attribute index builder: properties\<close>

lemma set_update_distinct:
  "distinct (map fst al) \<Longrightarrow>
   set (AList.update k v al) = {p \<in> set al. fst p \<noteq> k} \<union> {(k, v)}"
  by (induction al) (auto simp: rev_image_eqI)

lemma collectValue_step:
  fixes pvv :: VariantAttributeValue
  assumes ok: "acc_ok m"
  defines "k \<equiv> pa_id (product_attributes (product_attribute_values pvv))"
  defines "j \<equiv> pav_id (product_attribute_values pvv)"
  shows "acc_ok (collectValue pvv m) \<and> acc_pairs (collectValue pvv m) = insert (k, j) (acc_pairs m)"
proof -
  let ?fresh = "\<lparr>attr_id = k, attr_name = pa_name (product_attributes (product_attribute_values pvv)),
                 attr_icon_url = pa_icon_url (product_attributes (product_attribute_values pvv)),
                 attr_sort_order = (case pa_sort_order (product_attributes (product_attribute_values pvv))
                                    of None \<Rightarrow> 0 | Some n \<Rightarrow> n),
                 attr_values = []\<rparr> :: attr_acc"
  let ?new = "\<lparr>av_id = j, av_value = pav_value (product_attribute_values pvv), av_sort_order = 0\<rparr>"
  define m1 where "m1 = (if \<not> has m k then AList.update k ?fresh m else m)"
  from ok have d: "distinct (map fst m)"
    by (simp add: acc_ok_def)
  have ok1: "acc_ok m1"
    using ok d unfolding m1_def acc_ok_def
    by (auto simp: distinct_update set_update_distinct)
  have pairs1: "acc_pairs m1 = acc_pairs m"
  proof (cases "has m k")
    case True
    then show ?thesis by (simp add: m1_def)
  next
    case False
    then have "k \<notin> fst ` set m"
      by (simp add: has_def map_of_eq_None_iff)
    then have "{p \<in> set m. fst p \<noteq> k} = set m"
      by force
    with False d have "set m1 = set m \<union> {(k, ?fresh)}"
      by (simp add: m1_def set_update_distinct)
    then show ?thesis
      unfolding acc_pairs_def by auto
  qed
  have "map_of m1 k \<noteq> None"
    unfolding m1_def has_def by (auto simp: update_conv')
  then obtain e where e: "map_of m1 k = Some e"
    by blast
  from ok1 have d1: "distinct (map fst m1)"
    by (simp add: acc_ok_def)
  from e have em: "(k, e) \<in> set m1"
    by (rule map_of_SomeD)
  with ok1 have ee: "attr_id e = k" "distinct (map fst (attr_values e))"
    "\<forall>(j, v) \<in> set (attr_values e). av_id v = j"
    unfolding acc_ok_def by auto
  have unique: "\<And>e'. (k, e') \<in> set m1 \<Longrightarrow> e' = e"
    using d1 e by simp
  have cv: "collectValue pvv m =
        (if \<not> has (attr_values e) j
         then AList.update k (e\<lparr>attr_values := AList.update j ?new (attr_values e)\<rparr>) m1
         else m1)"
    using e unfolding collectValue_def m1_def k_def j_def by (simp add: Let_def)
  show ?thesis
  proof (cases "has (attr_values e) j")
    case True
    then have "j \<in> fst ` set (attr_values e)"
      by (simp add: has_def map_of_eq_None_iff)
    with em have "(k, j) \<in> acc_pairs m1"
      unfolding acc_pairs_def by blast
    with True cv ok1 pairs1 show ?thesis
      by (auto simp: insert_absorb)
  next
    case False
    define e' where "e' = e\<lparr>attr_values := AList.update j ?new (attr_values e)\<rparr>"
    have e'_id: "attr_id e' = k" and e'_values: "attr_values e' = AList.update j ?new (attr_values e)"
      by (simp_all add: e'_def ee(1))
    from False cv have r: "collectValue pvv m = AList.update k e' m1"
      by (simp add: e'_def)
    have s: "set (AList.update k e' m1) = {p \<in> set m1. fst p \<noteq> k} \<union> {(k, e')}"
      by (rule set_update_distinct [OF d1])
    have vs: "set (attr_values e') = {p \<in> set (attr_values e). fst p \<noteq> j} \<union> {(j, ?new)}"
      using ee(2) by (simp add: e'_values set_update_distinct)
    have keys: "fst ` set (attr_values e') = insert j (fst ` set (attr_values e))"
      by (simp add: e'_values dom_update)
    have e'_ok: "distinct (map fst (attr_values e'))" "\<forall>(j, v) \<in> set (attr_values e'). av_id v = j"
      using ee(2,3) vs by (auto simp: e'_values distinct_update)
    have okr: "acc_ok (AList.update k e' m1)"
      unfolding acc_ok_def
    proof (intro conjI ballI)
      show "distinct (map fst (AList.update k e' m1))"
        using d1 by (simp add: distinct_update)
    next
      fix p assume p: "p \<in> set (AList.update k e' m1)"
      show "case p of (k, e) \<Rightarrow> attr_id e = k \<and> distinct (map fst (attr_values e)) \<and>
              (\<forall>(j, v) \<in> set (attr_values e). av_id v = j)"
      proof (cases "p = (k, e')")
        case True
        with e'_id e'_ok show ?thesis
          by simp
      next
        case False
        with p s have "p \<in> set m1" by auto
        with ok1 show ?thesis
          unfolding acc_ok_def by blast
      qed
    qed
    have mem: "(k', j') \<in> acc_pairs (AList.update k e' m1) \<longleftrightarrow>
               (k', j') = (k, j) \<or> (k', j') \<in> acc_pairs m1" for k' j'
    proof (cases "k' = k")
      case True
      have "(\<exists>e''. (k, e'') \<in> set (AList.update k e' m1) \<and> j' \<in> fst ` set (attr_values e'')) \<longleftrightarrow>
            j' \<in> fst ` set (attr_values e')"
        unfolding s by auto
      moreover have "(\<exists>e''. (k, e'') \<in> set m1 \<and> j' \<in> fst ` set (attr_values e'')) \<longleftrightarrow>
            j' \<in> fst ` set (attr_values e)"
        using unique em by blast
      ultimately show ?thesis
        unfolding acc_pairs_def keys True by simp
    next
      case False
      have "(k', e'') \<in> set (AList.update k e' m1) \<longleftrightarrow> (k', e'') \<in> set m1" for e''
        unfolding s using False by auto
      with False show ?thesis
        unfolding acc_pairs_def by simp
    qed
    have "acc_pairs (AList.update k e' m1) = insert (k, j) (acc_pairs m1)"
      using mem by auto
    with okr r pairs1 show ?thesis
      by simp
  qed
qed


lemma collectValue_keys:
  "fst ` set (collectValue pvv m) =
   insert (pa_id (product_attributes (product_attribute_values pvv))) (fst ` set m)"
proof -
  let ?k = "pa_id (product_attributes (product_attribute_values pvv))"
  have "has m ?k \<Longrightarrow> ?k \<in> fst ` set m"
    by (simp add: has_def map_of_eq_None_iff)
  then show ?thesis
    unfolding collectValue_def Let_def
    by (auto simp: dom_update split: option.splits)
qed

lemma fold_collectValue:
  "acc_ok m \<Longrightarrow>
   acc_ok (fold collectValue pvvs m) \<and>
   acc_pairs (fold collectValue pvvs m) =
     (\<lambda>pvv. (pa_id (product_attributes (product_attribute_values pvv)),
             pav_id (product_attribute_values pvv))) ` set pvvs \<union> acc_pairs m \<and>
   fst ` set (fold collectValue pvvs m) =
     (\<lambda>pvv. pa_id (product_attributes (product_attribute_values pvv))) ` set pvvs \<union> fst ` set m"
proof (induction pvvs arbitrary: m)
  case Nil
  then show ?case by simp
next
  case (Cons pvv pvvs)
  from collectValue_step [OF Cons.prems, of pvv]
  have ok: "acc_ok (collectValue pvv m)"
    and pairs: "acc_pairs (collectValue pvv m) =
      insert (pa_id (product_attributes (product_attribute_values pvv)),
              pav_id (product_attribute_values pvv)) (acc_pairs m)"
    by simp_all
  from Cons.IH [OF ok] pairs collectValue_keys [of pvv m] show ?case
    by auto
qed

lemma collectVariant_step:
  assumes "acc_ok m"
  shows "acc_ok (collectVariant v m) \<and>
         acc_pairs (collectVariant v m) = attribute_values v \<union> acc_pairs m \<and>
         fst ` set (collectVariant v m) = fst ` attribute_values v \<union> fst ` set m"
  using fold_collectValue [OF assms, of "product_variant_values v"]
  by (simp add: collectVariant_def attribute_values_def image_image)

lemma fold_collectVariant:
  "acc_ok m \<Longrightarrow>
   acc_ok (fold collectVariant vs m) \<and>
   acc_pairs (fold collectVariant vs m) = (\<Union>v \<in> set vs. attribute_values v) \<union> acc_pairs m \<and>
   fst ` set (fold collectVariant vs m) = fst ` (\<Union>v \<in> set vs. attribute_values v) \<union> fst ` set m"
proof (induction vs arbitrary: m)
  case Nil
  then show ?case by simp
next
  case (Cons v vs)
  from collectVariant_step [OF Cons.prems, of v]
  have ok: "acc_ok (collectVariant v m)"
    and pairs: "acc_pairs (collectVariant v m) = attribute_values v \<union> acc_pairs m"
    and keys: "fst ` set (collectVariant v m) = fst ` attribute_values v \<union> fst ` set m"
    by simp_all
  from Cons.IH [OF ok] show ?case
    unfolding pairs keys by (simp add: image_Un Un_ac)
qed

lemma attributesMap_ok:
  "acc_ok (fold collectVariant vs []) \<and>
   acc_pairs (fold collectVariant vs []) = (\<Union>v \<in> set vs. attribute_values v) \<and>
   fst ` set (fold collectVariant vs []) = fst ` (\<Union>v \<in> set vs. attribute_values v)"
proof -
  have "acc_ok []" "acc_pairs [] = {}"
    by (simp_all add: acc_ok_def acc_pairs_def)
  with fold_collectVariant [of "[]" vs] show ?thesis
    by simp
qed


text \<open>From the map to the sorted index.\<close>

lemma index_pairs_distinct:
  "distinct (map attr_id idx) \<Longrightarrow>
   \<forall>a \<in> set idx. distinct (map av_id (attr_values a)) \<Longrightarrow>
   distinct (index_pairs idx)"
proof (induction idx)
  case Nil
  then show ?case by (simp add: index_pairs_def)
next
  case (Cons a idx)
  have split: "index_pairs (a # idx) = map (\<lambda>v. (attr_id a, av_id v)) (attr_values a) @ index_pairs idx"
    by (simp add: index_pairs_def)
  have "distinct (map (Pair (attr_id a)) (map av_id (attr_values a)))"
    using Cons.prems(2) by (simp add: distinct_map inj_on_def del: map_map)
  then have here: "distinct (map (\<lambda>v. (attr_id a, av_id v)) (attr_values a))"
    by (simp add: comp_def)
  have rest: "distinct (index_pairs idx)"
    using Cons by simp
  have "fst ` set (index_pairs idx) \<subseteq> attr_id ` set idx"
    by (auto simp: index_pairs_def)
  with Cons.prems(1) have "attr_id a \<notin> fst ` set (index_pairs idx)"
    by auto
  then have "set (map (\<lambda>v. (attr_id a, av_id v)) (attr_values a)) \<inter> set (index_pairs idx) = {}"
    by force
  with here rest show ?case
    unfolding split by simp
qed

lemma distinct_map_sort_key:
  "distinct (map g (sort_key f xs)) \<longleftrightarrow> distinct (map g xs)"
  by (simp add: distinct_map)

lemma productAttributes_structure:
  fixes vs :: "ProductVariant list"
  defines "idx \<equiv> productAttributes (Some vs)"
  shows "distinct (map attr_id idx)"
    and "attr_id ` set idx = fst ` (\<Union>v \<in> set vs. attribute_values v)"
    and "\<forall>a \<in> set idx. distinct (map av_id (attr_values a))"
    and "set (index_pairs idx) = (\<Union>v \<in> set vs. attribute_values v)"
proof -
  define m where "m = fold collectVariant vs []"
  define finish :: "attr_acc \<Rightarrow> attr_entry" where
    "finish = (\<lambda>a. \<lparr>attr_id = attr_id a, attr_name = attr_name a,
                     attr_icon_url = attr_icon_url a, attr_sort_order = attr_sort_order a,
                     attr_values = map snd (attr_values a)\<rparr>)"
  have idx: "idx = map finish (sort_key attr_sort_order (map snd m))"
    by (simp add: idx_def productAttributes_def m_def finish_def)
  from attributesMap_ok [of vs]
  have ok: "acc_ok m" and pairs: "acc_pairs m = (\<Union>v \<in> set vs. attribute_values v)"
    and keys: "fst ` set m = fst ` (\<Union>v \<in> set vs. attribute_values v)"
    by (simp_all add: m_def)
  have fin: "attr_id (finish e) = attr_id e" "attr_values (finish e) = map snd (attr_values e)" for e
    by (simp_all add: finish_def)
  have entry: "attr_id e = k" "distinct (map fst (attr_values e))"
    "map av_id (map snd (attr_values e)) = map fst (attr_values e)" if "(k, e) \<in> set m" for k e
  proof -
    from ok that have e: "attr_id e = k \<and> distinct (map fst (attr_values e)) \<and>
        (\<forall>(j, v) \<in> set (attr_values e). av_id v = j)"
      unfolding acc_ok_def by blast
    then show "attr_id e = k" "distinct (map fst (attr_values e))"
      by simp_all
    from e have "\<forall>q \<in> set (attr_values e). av_id (snd q) = fst q"
      by auto
    then show "map av_id (map snd (attr_values e)) = map fst (attr_values e)"
      by simp
  qed
  have ids: "map attr_id (map snd m) = map fst m"
    using entry(1) by auto
  have idx_ids: "map attr_id idx = map attr_id (sort_key attr_sort_order (map snd m))"
    unfolding idx by (simp add: fin comp_def)
  from ok have "distinct (map attr_id (map snd m))"
    unfolding ids by (simp add: acc_ok_def)
  then have "distinct (map attr_id (sort_key attr_sort_order (map snd m)))"
    by (simp only: distinct_map_sort_key)
  then show "distinct (map attr_id idx)"
    by (simp only: idx_ids)
  have "set (map attr_id idx) = set (map attr_id (map snd m))"
    unfolding idx_ids by (simp del: map_map)
  with keys show "attr_id ` set idx = fst ` (\<Union>v \<in> set vs. attribute_values v)"
    unfolding ids by simp
  have set_idx: "set idx = finish ` snd ` set m"
    unfolding idx by simp
  show "\<forall>a \<in> set idx. distinct (map av_id (attr_values a))"
    unfolding set_idx using entry(2,3) by (auto simp: fin simp del: map_map)
  have "set (index_pairs idx) = acc_pairs m"
  proof -
    have "set (index_pairs idx) = (\<Union>a \<in> set idx. (\<lambda>v. (attr_id a, av_id v)) ` set (attr_values a))"
      by (simp add: index_pairs_def)
    also have "\<dots> = (\<Union>p \<in> set m. (\<lambda>v. (attr_id (snd p), av_id v)) ` snd ` set (attr_values (snd p)))"
      unfolding set_idx by (simp add: fin)
    also have "\<dots> = (\<Union>p \<in> set m. (\<lambda>q. (fst p, fst q)) ` set (attr_values (snd p)))"
    proof (rule SUP_cong [OF refl])
      fix p assume p: "p \<in> set m"
      then have "(fst p, snd p) \<in> set m" by simp
      from entry(1,3) [OF this]
      have a: "attr_id (snd p) = fst p"
        and b: "map av_id (map snd (attr_values (snd p))) = map fst (attr_values (snd p))"
        by simp_all
      from b have "\<forall>q \<in> set (attr_values (snd p)). av_id (snd q) = fst q"
        by simp
      then show "(\<lambda>v. (attr_id (snd p), av_id v)) ` snd ` set (attr_values (snd p)) =
                 (\<lambda>q. (fst p, fst q)) ` set (attr_values (snd p))"
        unfolding a by (auto simp: image_image)
    qed
    also have "\<dots> = acc_pairs m"
      unfolding acc_pairs_def by force
    finally show ?thesis .
  qed
  with pairs show "set (index_pairs idx) = (\<Union>v \<in> set vs. attribute_values v)"
    by simp
qed


text \<open>
  C7. The derived attribute index contains an attribute exactly when some variant carries
  a value for it, each attribute once; and the (attribute, value) pairs of the index are
  exactly the pairs appearing on the variants, each pair once.
\<close>

theorem productAttributes_complete:
  "attr_id ` set (productAttributes (Some variants)) =
     fst ` (\<Union>v \<in> set variants. attribute_values v) \<and>
   distinct (map attr_id (productAttributes (Some variants))) \<and>
   set (index_pairs (productAttributes (Some variants))) =
     (\<Union>v \<in> set variants. attribute_values v) \<and>
   distinct (index_pairs (productAttributes (Some variants)))"
  using productAttributes_structure [of variants]
        index_pairs_distinct [of "productAttributes (Some variants)"]
  by blast

theorem productAttributes_complete_witness:
  "attr_id ` set (productAttributes (Some shirts)) = {''color'', ''size''} \<and>
   distinct (map attr_id (productAttributes (Some shirts))) \<and>
   set (index_pairs (productAttributes (Some shirts))) =
     {(''color'', ''red''), (''size'', ''s''), (''size'', ''m''), (''color'', ''blue'')} \<and>
   distinct (index_pairs (productAttributes (Some shirts)))"
proof -
  have "(\<Union>v \<in> set shirts. attribute_values v) =
        {(''color'', ''red''), (''size'', ''s''), (''size'', ''m''), (''color'', ''blue'')}"
    by (simp add: example_defs attribute_values_def insert_commute)
  with productAttributes_complete [of shirts] show ?thesis
    by auto
qed

section \<open>Variant match resolver: properties\<close>

lemma variantMatch_eq:
  "variantMatch (Some vs) idx S =
     (if idx = [] then None
      else if full idx S then
        (case find (backs idx S) vs of
           Some mv \<Rightarrow> Some (Some mv, join '', '' (map attr_name idx),
                            join '', '' (map (value_name S) idx))
         | None \<Rightarrow> Some (None, [], []))
      else Some (None, [], []))"
proof -
  have p: "(\<lambda>variant. list_all (\<lambda>a. case map_of S (attr_id a) of
                                        None \<Rightarrow> False
                                      | Some y \<Rightarrow> carries variant (attr_id a) y) idx) =
           backs idx S"
    by (rule ext) (simp add: backs_def list_all_iff carries_iff cong: option.case_cong)
  have f: "list_all (\<lambda>a. truthy (map_of S (attr_id a))) idx = full idx S"
    by (simp add: full_def list_all_iff truthy_def)
  have v: "(\<lambda>a. case map_of S (attr_id a) of
                  None \<Rightarrow> []
                | Some valId \<Rightarrow> (case find (\<lambda>v. av_id v = valId) (attr_values a) of
                                  None \<Rightarrow> []
                                | Some v \<Rightarrow> av_value v)) = value_name S"
    by (rule ext) (simp add: value_name_def)
  show ?thesis
    unfolding variantMatch_def Let_def p f v by simp
qed

lemma handleSelect_cases:
  "\<exists>S'. handleSelect (Some vs) S a x = Inr S' \<and>
     ((\<exists>v \<in> set vs. \<forall>(k, y) \<in> set S'. (k, y) \<in> assignments v) \<and> S' = AList.update a x S \<or>
      \<not> (\<exists>v \<in> set vs. (a, x) \<in> assignments v) \<and> S' = [(a, x)] \<or>
      (\<exists>w \<in> set vs. (a, x) \<in> assignments w \<and> S' = resolvedSelection w))"
proof (cases "list_ex (\<lambda>v. list_all (\<lambda>(k, y). carries v k y) (AList.update a x S)) vs")
  case True
  then have "handleSelect (Some vs) S a x = Inr (AList.update a x S)"
    by (simp add: handleSelect_def)
  moreover from True have "\<exists>v \<in> set vs. \<forall>(k, y) \<in> set (AList.update a x S). (k, y) \<in> assignments v"
    by (simp add: list_ex_iff exact_iff)
  ultimately show ?thesis
    by blast
next
  case False
  show ?thesis
  proof (cases "filter (\<lambda>v. carries v a x) vs")
    case Nil
    with False have "handleSelect (Some vs) S a x = Inr [(a, x)]"
      by (simp add: handleSelect_def)
    moreover from Nil have "\<not> (\<exists>v \<in> set vs. (a, x) \<in> assignments v)"
      by (simp add: filter_empty_conv carries_iff)
    ultimately show ?thesis
      by blast
  next
    case (Cons c0 cs)
    obtain w m' where best: "fold (considerCandidate a S) (c0 # cs) (c0, - 1) = (w, m')"
      by (cases "fold (considerCandidate a S) (c0 # cs) (c0, - 1)")
    with False Cons have r: "handleSelect (Some vs) S a x = Inr (resolvedSelection w)"
      by (simp add: handleSelect_def)
    from best_candidate [OF best] obtain pre post where "c0 # cs = pre @ w # post"
      by blast
    then have "w \<in> set (c0 # cs)"
      by (simp only: set_append list.set) simp
    with Cons have "w \<in> set (filter (\<lambda>v. carries v a x) vs)"
      by simp
    then have "w \<in> set vs" "(a, x) \<in> assignments w"
      by (simp_all add: carries_iff)
    with r show ?thesis
      by blast
  qed
qed

lemma index_nonempty:
  assumes "v \<in> set vs" "(a, x) \<in> assignments v"
  shows "productAttributes (Some vs) \<noteq> []"
proof -
  from assms(2) have "attribute_values v \<noteq> {}"
    by (auto simp: assignments_def attribute_values_def)
  with assms(1) have "fst ` (\<Union>v \<in> set vs. attribute_values v) \<noteq> {}"
    by auto
  then have "attr_id ` set (productAttributes (Some vs)) \<noteq> {}"
    unfolding productAttributes_structure(2) .
  then show ?thesis
    by auto
qed

lemma backs_found:
  assumes "v \<in> set vs" "backs idx S v"
  shows "\<exists>mv. find (backs idx S) vs = Some mv \<and> mv \<in> set vs \<and> backs idx S mv"
proof (cases "find (backs idx S) vs")
  case None
  with assms show ?thesis
    by (auto simp: find_None_iff)
next
  case (Some mv)
  then show ?thesis
    by (auto simp: find_Some_iff)
qed

lemma find_first:
  "find P xs = Some x \<longleftrightarrow> (\<exists>pre post. xs = pre @ x # post \<and> P x \<and> (\<forall>y \<in> set pre. \<not> P y))"
proof
  assume "find P xs = Some x"
  then obtain i where i: "i < length xs" "P (xs ! i)" "x = xs ! i" "\<forall>j<i. \<not> P (xs ! j)"
    unfolding find_Some_iff by blast
  then have "xs = take i xs @ x # drop (Suc i) xs"
    by (simp add: id_take_nth_drop)
  moreover have "\<forall>y \<in> set (take i xs). \<not> P y"
    using i by (auto simp: in_set_conv_nth)
  ultimately show "\<exists>pre post. xs = pre @ x # post \<and> P x \<and> (\<forall>y \<in> set pre. \<not> P y)"
    using i by blast
next
  assume "\<exists>pre post. xs = pre @ x # post \<and> P x \<and> (\<forall>y \<in> set pre. \<not> P y)"
  then obtain pre post where "xs = pre @ x # post" "P x" "\<forall>y \<in> set pre. \<not> P y"
    by blast
  then show "find P xs = Some x"
    by (induction pre arbitrary: xs) auto
qed

lemma find_by_key:
  "distinct (map f xs) \<Longrightarrow> v \<in> set xs \<Longrightarrow> find (\<lambda>u. f u = f v) xs = Some v"
  by (induction xs) (auto simp: rev_image_eqI)

lemma backs_exact:
  assumes obj: "is_object S"
    and dom: "fst ` set S = attr_id ` set (productAttributes (Some vs))"
    and v: "v \<in> set vs" "joined v" "one_value_per_attribute v"
    and f: "full (productAttributes (Some vs)) S"
  shows "backs (productAttributes (Some vs)) S v \<longleftrightarrow> assignments v = set S"
proof
  let ?idx = "productAttributes (Some vs)"
  assume b: "backs ?idx S v"
  have held: "\<exists>y. map_of S k = Some y \<and> (k, y) \<in> assignments v" if "k \<in> attr_id ` set ?idx" for k
    using b that unfolding backs_def by (auto split: option.splits)
  show "assignments v = set S"
  proof (intro equalityI subsetI)
    fix p assume p: "p \<in> assignments v"
    obtain k y where ky: "p = (k, y)" by (cases p)
    from v(2) have "assignments v = attribute_values v"
      unfolding joined_def assignments_def attribute_values_def list_all_iff by auto
    with p v(1) have "p \<in> (\<Union>v \<in> set vs. attribute_values v)"
      by blast
    then have "k \<in> attr_id ` set ?idx"
      unfolding productAttributes_structure(2) ky by force
    from held [OF this] obtain y' where y': "map_of S k = Some y'" "(k, y') \<in> assignments v"
      by blast
    with v(3) p ky have "y' = y"
      unfolding one_value_per_attribute_def by fastforce
    with y'(1) ky show "p \<in> set S"
      by (simp add: map_of_SomeD)
  next
    fix p assume p: "p \<in> set S"
    obtain k y where ky: "p = (k, y)" by (cases p)
    with p dom have "k \<in> attr_id ` set ?idx"
      by force
    from held [OF this] obtain y' where y': "map_of S k = Some y'" "(k, y') \<in> assignments v"
      by blast
    from p ky obj have "map_of S k = Some y"
      by (simp add: object_entries)
    with y' ky show "p \<in> assignments v"
      by simp
  qed
next
  let ?idx = "productAttributes (Some vs)"
  assume eq: "assignments v = set S"
  show "backs ?idx S v"
    unfolding backs_def
  proof
    fix e assume "e \<in> set ?idx"
    with f obtain y where y: "map_of S (attr_id e) = Some y"
      unfolding full_def by (auto split: option.splits)
    then have "(attr_id e, y) \<in> set S"
      by (rule map_of_SomeD)
    with y eq show "case map_of S (attr_id e) of None \<Rightarrow> False
                    | Some y \<Rightarrow> (attr_id e, y) \<in> assignments v"
      by simp
  qed
qed

lemma value_name_chosen:
  assumes "e \<in> set (productAttributes (Some vs))" "u \<in> set (attr_values e)"
    and "map_of S (attr_id e) = Some (av_id u)"
  shows "value_name S e = av_value u"
proof -
  from assms(1) productAttributes_structure(3) [of vs] have "distinct (map av_id (attr_values e))"
    by blast
  from find_by_key [OF this assms(2)] assms(3) show ?thesis
    by (simp add: value_name_def)
qed


text \<open>
  C3, as amended. With a loaded catalog and a non-empty index, the resolver reports a
  variant exactly when the selection is full (a non-empty value for every attribute of
  the index) and some variant backs it (carries, for every attribute of the index, the
  value selected); it then reports the first such variant in catalog order, with the
  attribute names and the chosen value names of the index, in index order, joined by
  \<open>", "\<close>; otherwise it reports null with empty display strings. When the selection is
  an object whose attributes are exactly those of the index, a variant that is joined and
  has one value per attribute backs it exactly when its assignment set equals the
  selection. With no catalog or an empty index the resolver returns without reporting.
  No case throws.
\<close>

theorem variantMatch_report:
  assumes idx: "idx = productAttributes (Some variants)"
  shows "variantMatch None idx S = None \<and>
    (idx = [] \<longrightarrow> variantMatch (Some variants) idx S = None) \<and>
    (idx \<noteq> [] \<and> \<not> (full idx S \<and> (\<exists>v \<in> set variants. backs idx S v)) \<longrightarrow>
       variantMatch (Some variants) idx S = Some (None, [], [])) \<and>
    (idx \<noteq> [] \<and> full idx S \<and> (\<exists>v \<in> set variants. backs idx S v) \<longrightarrow>
       (\<exists>pre mv post.
          variants = pre @ mv # post \<and> backs idx S mv \<and> (\<forall>v \<in> set pre. \<not> backs idx S v) \<and>
          variantMatch (Some variants) idx S =
            Some (Some mv, join '', '' (map attr_name idx), join '', '' (map (value_name S) idx)))) \<and>
    (\<forall>e \<in> set idx. \<forall>u \<in> set (attr_values e).
       map_of S (attr_id e) = Some (av_id u) \<longrightarrow> value_name S e = av_value u) \<and>
    (\<forall>v \<in> set variants.
       is_object S \<and> fst ` set S = attr_id ` set idx \<and> joined v \<and> one_value_per_attribute v \<and>
       full idx S \<longrightarrow>
       (backs idx S v \<longleftrightarrow> assignments v = set S))"
proof (intro conjI impI ballI)
  show "variantMatch None idx S = None"
    by (simp add: variantMatch_def)
next
  assume "idx = []"
  then show "variantMatch (Some variants) idx S = None"
    by (simp add: variantMatch_eq)
next
  assume a: "idx \<noteq> [] \<and> \<not> (full idx S \<and> (\<exists>v \<in> set variants. backs idx S v))"
  show "variantMatch (Some variants) idx S = Some (None, [], [])"
  proof (cases "full idx S")
    case False
    with a show ?thesis
      by (simp add: variantMatch_eq)
  next
    case True
    with a have "find (backs idx S) variants = None"
      by (simp add: find_None_iff)
    with a True show ?thesis
      by (simp add: variantMatch_eq)
  qed
next
  assume a: "idx \<noteq> [] \<and> full idx S \<and> (\<exists>v \<in> set variants. backs idx S v)"
  then obtain v where "v \<in> set variants" "backs idx S v"
    by blast
  from backs_found [OF this] obtain mv where mv: "find (backs idx S) variants = Some mv"
    by blast
  then obtain pre post where
    "variants = pre @ mv # post" "backs idx S mv" "\<forall>v \<in> set pre. \<not> backs idx S v"
    unfolding find_first by blast
  moreover from a mv have "variantMatch (Some variants) idx S =
      Some (Some mv, join '', '' (map attr_name idx), join '', '' (map (value_name S) idx))"
    by (simp add: variantMatch_eq)
  ultimately show "\<exists>pre mv post.
      variants = pre @ mv # post \<and> backs idx S mv \<and> (\<forall>v \<in> set pre. \<not> backs idx S v) \<and>
      variantMatch (Some variants) idx S =
        Some (Some mv, join '', '' (map attr_name idx), join '', '' (map (value_name S) idx))"
    by blast
next
  fix e u
  assume "e \<in> set idx" "u \<in> set (attr_values e)" "map_of S (attr_id e) = Some (av_id u)"
  then show "value_name S e = av_value u"
    unfolding idx by (rule value_name_chosen)
next
  fix v
  assume "v \<in> set variants"
    and "is_object S \<and> fst ` set S = attr_id ` set idx \<and> joined v \<and>
         one_value_per_attribute v \<and> full idx S"
  then show "backs idx S v \<longleftrightarrow> assignments v = set S"
    unfolding idx using backs_exact by blast
qed

text \<open>
  The claim as stated fails in four ways. With an empty catalog, and with a catalog whose
  only variant has no assignments and so equals the empty selection, the resolver reports
  nothing at all. A selection that covers the index of the shirts and also holds a
  \<open>fabric\<close> gets Red/S reported, though no variant's assignment set equals it. A
  selection whose value is the empty string is not taken as full, though a variant has
  exactly that assignment.
\<close>

theorem variantMatch_report_counterexample:
  "variantMatch (Some []) (productAttributes (Some [])) [] = None \<and>
   assignments bare = set ([] :: selection) \<and>
   variantMatch (Some [bare]) (productAttributes (Some [bare])) [] = None \<and>
   attr_id ` set (productAttributes (Some shirts)) \<subseteq>
     fst ` set [(''color'', ''red''), (''size'', ''s''), (''fabric'', ''wool'')] \<and>
   variantMatch (Some shirts) (productAttributes (Some shirts))
       [(''color'', ''red''), (''size'', ''s''), (''fabric'', ''wool'')] =
     Some (Some red_s, ''Color, Size'', ''Red, S'') \<and>
   \<not> (\<exists>v \<in> set shirts.
        assignments v = set [(''color'', ''red''), (''size'', ''s''), (''fabric'', ''wool'')]) \<and>
   assignments plain = set [(''color'', [])] \<and>
   variantMatch (Some [plain]) (productAttributes (Some [plain])) [(''color'', [])] =
     Some (None, [], [])"
proof (intro conjI)
  show "variantMatch (Some []) (productAttributes (Some [])) [] = None"
    by code_simp
  show "assignments bare = set ([] :: selection)"
    by code_simp
  show "variantMatch (Some [bare]) (productAttributes (Some [bare])) [] = None"
    by code_simp
  show "attr_id ` set (productAttributes (Some shirts)) \<subseteq>
     fst ` set [(''color'', ''red''), (''size'', ''s''), (''fabric'', ''wool'')]"
    by code_simp
  show "variantMatch (Some shirts) (productAttributes (Some shirts))
       [(''color'', ''red''), (''size'', ''s''), (''fabric'', ''wool'')] =
     Some (Some red_s, ''Color, Size'', ''Red, S'')"
    by code_simp
  show "\<not> (\<exists>v \<in> set shirts.
        assignments v = set [(''color'', ''red''), (''size'', ''s''), (''fabric'', ''wool'')])"
    by code_simp
  show "assignments plain = set [(''color'', [])]"
    by code_simp
  show "variantMatch (Some [plain]) (productAttributes (Some [plain])) [(''color'', [])] =
     Some (None, [], [])"
    by code_simp
qed

theorem variantMatch_report_witness:
  "(\<exists>pre mv post.
      shirts = pre @ mv # post \<and>
      backs (productAttributes (Some shirts)) [(''color'', ''blue''), (''size'', ''s'')] mv \<and>
      (\<forall>v \<in> set pre. \<not> backs (productAttributes (Some shirts)) [(''color'', ''blue''), (''size'', ''s'')] v) \<and>
      variantMatch (Some shirts) (productAttributes (Some shirts)) [(''color'', ''blue''), (''size'', ''s'')] =
        Some (Some mv, join '', '' (map attr_name (productAttributes (Some shirts))),
              join '', '' (map (value_name [(''color'', ''blue''), (''size'', ''s'')])
                               (productAttributes (Some shirts))))) \<and>
   assignments blue_s = set [(''color'', ''blue''), (''size'', ''s'')] \<and>
   variantMatch (Some shirts) (productAttributes (Some shirts)) [(''color'', ''blue'')] =
     Some (None, [], [])"
proof -
  let ?idx = "productAttributes (Some shirts)"
  let ?S = "[(''color'', ''blue''), (''size'', ''s'')]"
  note t = variantMatch_report [OF refl, of shirts ?S]
  note t' = variantMatch_report [OF refl, of shirts "[(''color'', ''blue'')]"]
  have ne: "?idx \<noteq> []"
    by code_simp
  have f: "full ?idx ?S"
    by code_simp
  have b: "\<exists>v \<in> set shirts. backs ?idx ?S v"
    by code_simp
  have found: "\<exists>pre mv post.
      shirts = pre @ mv # post \<and> backs ?idx ?S mv \<and> (\<forall>v \<in> set pre. \<not> backs ?idx ?S v) \<and>
      variantMatch (Some shirts) ?idx ?S =
        Some (Some mv, join '', '' (map attr_name ?idx), join '', '' (map (value_name ?S) ?idx))"
    using t ne f b by blast
  have "is_object ?S" "fst ` set ?S = attr_id ` set ?idx" "joined blue_s"
    "one_value_per_attribute blue_s" "blue_s \<in> set shirts" "backs ?idx ?S blue_s"
    by code_simp+
  with t f have exact: "assignments blue_s = set ?S"
    by blast
  have "\<not> full ?idx [(''color'', ''blue'')]"
    by code_simp
  with t' ne have null: "variantMatch (Some shirts) ?idx [(''color'', ''blue'')] = Some (None, [], [])"
    by blast
  from found exact null show ?thesis
    by blast
qed

section \<open>Auto-select rule and component: properties\<close>

lemma autoSelectStep_cases:
  "autoSelectStep e st = st \<or>
   (\<exists>v. attr_values e = [v] \<and> \<not> truthy (map_of (fst st) (attr_id e)) \<and>
        autoSelectStep e st = (AList.update (attr_id e) (av_id v) (fst st), True))"
  by (cases st) (auto simp: autoSelectStep_def split: list.splits)

lemma fold_autoSelectStep_changed:
  "fold autoSelectStep idx (S, b) = (S', b') \<Longrightarrow> b' = True \<or> (S' = S \<and> b' = b)"
proof (induction idx arbitrary: S b)
  case Nil
  then show ?case by simp
next
  case (Cons e idx)
  from autoSelectStep_cases [of e "(S, b)"] show ?case
  proof
    assume "autoSelectStep e (S, b) = (S, b)"
    with Cons show ?thesis by simp
  next
    assume "\<exists>v. attr_values e = [v] \<and> \<not> truthy (map_of (fst (S, b)) (attr_id e)) \<and>
        autoSelectStep e (S, b) = (AList.update (attr_id e) (av_id v) (fst (S, b)), True)"
    then obtain v :: attr_value
      where "autoSelectStep e (S, b) = (AList.update (attr_id e) (av_id v) S, True)"
      by auto
    with Cons.prems have "fold autoSelectStep idx (AList.update (attr_id e) (av_id v) S, True) = (S', b')"
      by simp
    from Cons.IH [OF this] show ?thesis
      by auto
  qed
qed

lemma autoSelect_fold: "autoSelect idx S = fst (fold autoSelectStep idx (S, False))"
proof (cases "fold autoSelectStep idx (S, False)")
  case (Pair S' b')
  from fold_autoSelectStep_changed [OF this] Pair show ?thesis
    by (cases idx) (auto simp: autoSelect_def)
qed





lemma fold_autoSelectStep_object:
  "is_object (fst st) \<Longrightarrow> is_object (fst (fold autoSelectStep idx st))"
proof (induction idx arbitrary: st)
  case Nil
  then show ?case by simp
next
  case (Cons e idx)
  have "is_object (fst (autoSelectStep e st))"
    using autoSelectStep_cases [of e st] Cons.prems by (auto simp: object_update)
  from Cons.IH [OF this] show ?case
    by simp
qed






lemma autoSelect_object: "is_object S \<Longrightarrow> is_object (autoSelect idx S)"
  by (simp add: autoSelect_fold fold_autoSelectStep_object)



section \<open>The selection across catalog changes\<close>


lemma joined_assignments: "joined v \<Longrightarrow> assignments v = attribute_values v"
  unfolding joined_def assignments_def attribute_values_def list_all_iff by auto

lemma autoSelect_Nil: "autoSelect [] S = S"
  by (simp add: autoSelect_def)

lemma render_initial:
  "render initial = \<lparr>st_variants = None, st_selected = [], st_effectDeps = Some None\<rparr>"
  by (simp add: render_def initial_def productAttributes_def autoSelect_Nil)








text \<open>
  The selection of every reached state is an object, so the hypothesis \<open>is_object\<close> of
  the results above holds wherever the component calls its resolvers.
\<close>

lemma handleSelect_object:
  assumes "is_object S" "handleSelect (Some vs) S a x = Inr S'"
  shows "is_object S'"
proof -
  from handleSelect_cases [of vs S a x] assms(2) consider
      "S' = AList.update a x S" | "S' = [(a, x)]"
    | w where "S' = resolvedSelection w"
    by auto
  then show ?thesis
  proof cases
    case 1
    with assms(1) show ?thesis by (simp add: object_update)
  next
    case 2
    then show ?thesis by (simp add: is_object_def)
  next
    case 3
    then show ?thesis by (simp add: resolvedSelection_object)
  qed
qed

lemma render_object: "is_object (st_selected s) \<Longrightarrow> is_object (st_selected (render s))"
  by (simp add: render_def autoSelect_object)

lemma reachable_object: "reachable s \<Longrightarrow> is_object (st_selected s)"
proof (induction rule: reachable.induct)
  case mount
  then show ?case
    by (simp add: render_initial is_object_def)
next
  case (rerender s)
  then show ?case
    by (simp add: render_object)
next
  case (reload s data)
  then show ?case
    by (simp add: render_object)
next
  case (click s vs a x sel')
  from handleSelect_object [OF click.IH click.hyps(5)] show ?case
    by (simp add: render_object)
qed

section \<open>The auto-select rule in the reached states\<close>












section \<open>The selection after a click and its match\<close>

text \<open>
  The smart-switch branch as the code takes it: the winner is the first candidate of
  greatest count, and the new selection is built from it.
\<close>

lemma smart_switch_taken:
  assumes noexact: "\<not> list_ex (\<lambda>v. list_all (\<lambda>(k, y). carries v k y) (AList.update a x S)) vs"
    and cand: "\<exists>v \<in> set vs. (a, x) \<in> assignments v"
  shows "\<exists>pre w post.
           vs = pre @ w # post \<and> (a, x) \<in> assignments w \<and>
           (\<forall>c \<in> set pre. (a, x) \<in> assignments c \<longrightarrow> countMatches c a S < countMatches w a S) \<and>
           (\<forall>c \<in> set post. (a, x) \<in> assignments c \<longrightarrow> countMatches c a S \<le> countMatches w a S) \<and>
           handleSelect (Some vs) S a x = Inr (resolvedSelection w)"
proof -
  let ?P = "\<lambda>v. carries v a x"
  from cand have "filter ?P vs \<noteq> []"
    by (simp add: filter_empty_conv carries_iff)
  then obtain c0 cs where cands: "filter ?P vs = c0 # cs"
    by (cases "filter ?P vs") auto
  obtain w m' where best: "fold (considerCandidate a S) (c0 # cs) (c0, - 1) = (w, m')"
    by (cases "fold (considerCandidate a S) (c0 # cs) (c0, - 1)")
  with noexact cands have result: "handleSelect (Some vs) S a x = Inr (resolvedSelection w)"
    by (simp add: handleSelect_def)
  from best_candidate [OF best] obtain pre post where
    split: "c0 # cs = pre @ w # post" and
    before: "\<forall>c \<in> set pre. countMatches c a S < countMatches w a S" and
    after: "\<forall>c \<in> set post. countMatches c a S \<le> countMatches w a S"
    by blast
  from split cands have "filter ?P vs = pre @ w # post"
    by simp
  from filter_split [OF this] obtain pre' post' where
    cat: "vs = pre' @ w # post'" and w: "carries w a x" and
    pre: "filter ?P pre' = pre" and post: "filter ?P post' = post"
    by blast
  have lt: "\<forall>c \<in> set pre'. (a, x) \<in> assignments c \<longrightarrow> countMatches c a S < countMatches w a S"
  proof (intro ballI impI)
    fix c assume "c \<in> set pre'" "(a, x) \<in> assignments c"
    with pre have "c \<in> set pre" by (auto simp: carries_iff)
    with before show "countMatches c a S < countMatches w a S"
      by simp
  qed
  have le: "\<forall>c \<in> set post'. (a, x) \<in> assignments c \<longrightarrow> countMatches c a S \<le> countMatches w a S"
  proof (intro ballI impI)
    fix c assume "c \<in> set post'" "(a, x) \<in> assignments c"
    with post have "c \<in> set post" by (auto simp: carries_iff)
    with after show "countMatches c a S \<le> countMatches w a S"
      by simp
  qed
  from w have "(a, x) \<in> assignments w"
    by (simp add: carries_iff)
  with cat lt le result show ?thesis
    by blast
qed

text \<open>
  What the resolver reports for a full selection that a variant of the catalog carries:
  the first variant backing it, which on a joined catalog carries every entry of it.
\<close>

lemma carried_resolves:
  assumes b: "b \<in> set vs" "\<forall>(k, y) \<in> set S'. (k, y) \<in> assignments b"
    and ne: "productAttributes (Some vs) \<noteq> []"
    and f: "full (productAttributes (Some vs)) S'"
  shows "\<exists>pre mv post.
           vs = pre @ mv # post \<and> backs (productAttributes (Some vs)) S' mv \<and>
           (\<forall>v \<in> set pre. \<not> backs (productAttributes (Some vs)) S' v) \<and>
           variantMatch (Some vs) (productAttributes (Some vs)) S' =
             Some (Some mv, join '', '' (map attr_name (productAttributes (Some vs))),
                   join '', '' (map (value_name S') (productAttributes (Some vs)))) \<and>
           (is_object S' \<and> joined b \<longrightarrow> (\<forall>(k, y) \<in> set S'. (k, y) \<in> assignments mv))"
proof -
  let ?idx = "productAttributes (Some vs)"
  have "backs ?idx S' b"
    unfolding backs_def
  proof
    fix e assume "e \<in> set ?idx"
    with f obtain y where y: "map_of S' (attr_id e) = Some y"
      unfolding full_def by (auto split: option.splits)
    then have "(attr_id e, y) \<in> set S'"
      by (rule map_of_SomeD)
    with b(2) y show "case map_of S' (attr_id e) of None \<Rightarrow> False
                      | Some y \<Rightarrow> (attr_id e, y) \<in> assignments b"
      by auto
  qed
  from backs_found [OF b(1) this] obtain mv where mv: "find (backs ?idx S') vs = Some mv"
    by blast
  then obtain pre post where
    first: "vs = pre @ mv # post" "backs ?idx S' mv" "\<forall>v \<in> set pre. \<not> backs ?idx S' v"
    unfolding find_first by blast
  from ne f mv have report: "variantMatch (Some vs) ?idx S' =
      Some (Some mv, join '', '' (map attr_name ?idx), join '', '' (map (value_name S') ?idx))"
    by (simp add: variantMatch_eq)
  have all: "\<forall>(k, y) \<in> set S'. (k, y) \<in> assignments mv" if o: "is_object S'" and j: "joined b"
  proof (intro ballI, clarify)
    fix k y assume ky: "(k, y) \<in> set S'"
    with b(2) have "(k, y) \<in> assignments b"
      by auto
    with j have "(k, y) \<in> attribute_values b"
      by (simp add: joined_assignments)
    with b(1) have "k \<in> fst ` (\<Union>v \<in> set vs. attribute_values v)"
      by force
    then have "k \<in> attr_id ` set ?idx"
      unfolding productAttributes_structure(2) .
    then obtain e where e: "e \<in> set ?idx" "attr_id e = k"
      by auto
    with first(2) obtain y' where y': "map_of S' k = Some y'" "(k, y') \<in> assignments mv"
      unfolding backs_def by (auto split: option.splits)
    from ky o have "map_of S' k = Some y"
      by (simp add: object_entries)
    with y' show "(k, y) \<in> assignments mv"
      by simp
  qed
  from first report all show ?thesis
    by blast
qed


text \<open>
  C10. After \<open>handleSelect(a, x)\<close> with at least one variant carrying \<open>(a, x)\<close>, a
  variant \<open>b\<close> of the catalog carries \<open>(a, x)\<close> and every entry of the resulting
  selection, which holds a value for \<open>a\<close>. In the exact-match branch \<open>b\<close> matches the
  merged selection, which the selection becomes; in the smart-switch branch \<open>b\<close> is the
  winning candidate, the first of greatest overlap, and the selection becomes its
  assignments. So when the resulting selection is full, the resolver reports the first
  variant that carries the selected value for every attribute of the index, and on a
  joined catalog that variant carries every entry of the selection.
\<close>

theorem handleSelect_backed:
  assumes "\<exists>variant \<in> set variants. (a, x) \<in> assignments variant"
  shows "\<exists>S' b.
    handleSelect (Some variants) S a x = Inr S' \<and>
    b \<in> set variants \<and> (a, x) \<in> assignments b \<and>
    (\<forall>(k, y) \<in> set S'. (k, y) \<in> assignments b) \<and>
    a \<in> fst ` set S' \<and>
    (one_value_per_attribute b \<longrightarrow> map_of S' a = Some x) \<and>
    (is_object S \<longrightarrow>
       is_object S' \<and>
       ((\<forall>k y. ((map_of S)(a \<mapsto> x)) k = Some y \<longrightarrow> (k, y) \<in> assignments b) \<and>
        map_of S' = (map_of S)(a \<mapsto> x) \<or>
        \<not> (\<exists>variant \<in> set variants.
              \<forall>k y. ((map_of S)(a \<mapsto> x)) k = Some y \<longrightarrow> (k, y) \<in> assignments variant) \<and>
        (\<exists>pre post.
           variants = pre @ b # post \<and>
           (\<forall>c \<in> set pre. (a, x) \<in> assignments c \<longrightarrow> overlap c a S < overlap b a S) \<and>
           (\<forall>c \<in> set post. (a, x) \<in> assignments c \<longrightarrow> overlap c a S \<le> overlap b a S)) \<and>
        fst ` set S' = fst ` assignments b \<and>
        (one_value_per_attribute b \<longrightarrow> set S' = assignments b))) \<and>
    (full (productAttributes (Some variants)) S' \<longrightarrow>
       (\<exists>pre mv post.
          variants = pre @ mv # post \<and>
          backs (productAttributes (Some variants)) S' mv \<and>
          (\<forall>v \<in> set pre. \<not> backs (productAttributes (Some variants)) S' v) \<and>
          variantMatch (Some variants) (productAttributes (Some variants)) S' =
            Some (Some mv, join '', '' (map attr_name (productAttributes (Some variants))),
                  join '', '' (map (value_name S') (productAttributes (Some variants)))) \<and>
          (is_object S \<and> joined b \<longrightarrow> (\<forall>(k, y) \<in> set S'. (k, y) \<in> assignments mv))))"
proof -
  let ?idx = "productAttributes (Some variants)"
  let ?M = "\<lambda>v. \<forall>k y. ((map_of S)(a \<mapsto> x)) k = Some y \<longrightarrow> (k, y) \<in> assignments v"
  from assms have ne: "?idx \<noteq> []"
    using index_nonempty by blast
  have resolver: "full ?idx S' \<longrightarrow>
       (\<exists>pre mv post.
          variants = pre @ mv # post \<and> backs ?idx S' mv \<and> (\<forall>v \<in> set pre. \<not> backs ?idx S' v) \<and>
          variantMatch (Some variants) ?idx S' =
            Some (Some mv, join '', '' (map attr_name ?idx), join '', '' (map (value_name S') ?idx)) \<and>
          (is_object S \<and> joined b \<longrightarrow> (\<forall>(k, y) \<in> set S'. (k, y) \<in> assignments mv)))"
    if r: "handleSelect (Some variants) S a x = Inr S'"
      and b: "b \<in> set variants" "\<forall>(k, y) \<in> set S'. (k, y) \<in> assignments b" for S' b
  proof
    assume "full ?idx S'"
    from carried_resolves [OF b ne this] obtain pre mv post where
      m: "variants = pre @ mv # post" "backs ?idx S' mv" "\<forall>v \<in> set pre. \<not> backs ?idx S' v"
        "variantMatch (Some variants) ?idx S' =
           Some (Some mv, join '', '' (map attr_name ?idx), join '', '' (map (value_name S') ?idx))"
        "is_object S' \<and> joined b \<longrightarrow> (\<forall>(k, y) \<in> set S'. (k, y) \<in> assignments mv)"
      by blast
    from m(5) handleSelect_object [OF _ r]
    have "is_object S \<and> joined b \<longrightarrow> (\<forall>(k, y) \<in> set S'. (k, y) \<in> assignments mv)"
      by blast
    with m(1-4) show "\<exists>pre mv post.
          variants = pre @ mv # post \<and> backs ?idx S' mv \<and> (\<forall>v \<in> set pre. \<not> backs ?idx S' v) \<and>
          variantMatch (Some variants) ?idx S' =
            Some (Some mv, join '', '' (map attr_name ?idx), join '', '' (map (value_name S') ?idx)) \<and>
          (is_object S \<and> joined b \<longrightarrow> (\<forall>(k, y) \<in> set S'. (k, y) \<in> assignments mv))"
      by blast
  qed
  show ?thesis
  proof (cases "list_ex (\<lambda>v. list_all (\<lambda>(k, y). carries v k y) (AList.update a x S)) variants")
    case True
    let ?S' = "AList.update a x S"
    from True have r: "handleSelect (Some variants) S a x = Inr ?S'"
      by (simp add: handleSelect_def)
    from True obtain b where b: "b \<in> set variants" "\<forall>(k, y) \<in> set ?S'. (k, y) \<in> assignments b"
      by (auto simp: list_ex_iff exact_iff)
    from b(2) update_mem [of a x S] have ax: "(a, x) \<in> assignments b"
      by auto
    have key: "a \<in> fst ` set ?S'"
      using update_mem [of a x S] by force
    have look: "map_of ?S' a = Some x"
      by (simp add: update_conv')
    have branch: "is_object ?S' \<and> ?M b \<and> map_of ?S' = (map_of S)(a \<mapsto> x)" if "is_object S"
      using that b(2) exact_merged [OF that, of b a x]
      by (simp add: object_update update_conv' exact_iff)
    from r b ax key look branch resolver [OF r b] show ?thesis
      by blast
  next
    case False
    from smart_switch_taken [OF False assms] obtain pre w post where
      w: "variants = pre @ w # post" "(a, x) \<in> assignments w"
        "\<forall>c \<in> set pre. (a, x) \<in> assignments c \<longrightarrow> countMatches c a S < countMatches w a S"
        "\<forall>c \<in> set post. (a, x) \<in> assignments c \<longrightarrow> countMatches c a S \<le> countMatches w a S"
      and r: "handleSelect (Some variants) S a x = Inr (resolvedSelection w)"
      by blast
    let ?S' = "resolvedSelection w"
    have "w \<in> set (pre @ w # post)"
      by simp
    then have wv: "w \<in> set variants"
      unfolding w(1) [symmetric] .
    have sub: "\<forall>(k, y) \<in> set ?S'. (k, y) \<in> assignments w"
      using resolvedSelection_subset [of w] by auto
    have keys: "fst ` set ?S' = fst ` assignments w"
      by (rule resolvedSelection_keys)
    from w(2) have key: "a \<in> fst ` set ?S'"
      unfolding keys by force
    have exact: "set ?S' = assignments w" if "one_value_per_attribute w"
      using that by (rule resolvedSelection_exact)
    have look: "map_of ?S' a = Some x" if "one_value_per_attribute w"
      using exact [OF that] w(2)
      by (simp add: object_entries [OF resolvedSelection_object, symmetric])
    have branch: "\<not> (\<exists>variant \<in> set variants. ?M variant) \<and>
        (\<exists>pre post.
           variants = pre @ w # post \<and>
           (\<forall>c \<in> set pre. (a, x) \<in> assignments c \<longrightarrow> overlap c a S < overlap w a S) \<and>
           (\<forall>c \<in> set post. (a, x) \<in> assignments c \<longrightarrow> overlap c a S \<le> overlap w a S))"
      if o: "is_object S"
    proof
      from False show "\<not> (\<exists>variant \<in> set variants. ?M variant)"
        by (simp add: list_ex_iff exact_merged [OF o])
      from w(1,3,4) show "\<exists>pre post.
           variants = pre @ w # post \<and>
           (\<forall>c \<in> set pre. (a, x) \<in> assignments c \<longrightarrow> overlap c a S < overlap w a S) \<and>
           (\<forall>c \<in> set post. (a, x) \<in> assignments c \<longrightarrow> overlap c a S \<le> overlap w a S)"
        unfolding countMatches_overlap [OF o] by auto
    qed
    from r wv w(2) sub key look branch keys exact resolvedSelection_object [of w]
      resolver [OF r wv sub]
    show ?thesis
      by blast
  qed
qed

theorem handleSelect_backed_witness:
  "\<exists>S' b.
     handleSelect (Some shirts) [(''color'', ''blue''), (''size'', ''s'')] ''size'' ''m'' = Inr S' \<and>
     b \<in> set shirts \<and> (''size'', ''m'') \<in> assignments b \<and>
     (\<forall>(k, y) \<in> set S'. (k, y) \<in> assignments b) \<and>
     map_of S' ''size'' = Some ''m'' \<and> is_object S' \<and> set S' = assignments b \<and>
     (\<exists>pre post.
        shirts = pre @ b # post \<and>
        (\<forall>c \<in> set pre. (''size'', ''m'') \<in> assignments c \<longrightarrow>
           overlap c ''size'' [(''color'', ''blue''), (''size'', ''s'')]
             < overlap b ''size'' [(''color'', ''blue''), (''size'', ''s'')]) \<and>
        (\<forall>c \<in> set post. (''size'', ''m'') \<in> assignments c \<longrightarrow>
           overlap c ''size'' [(''color'', ''blue''), (''size'', ''s'')]
             \<le> overlap b ''size'' [(''color'', ''blue''), (''size'', ''s'')])) \<and>
     (\<exists>pre mv post.
        shirts = pre @ mv # post \<and>
        backs (productAttributes (Some shirts)) S' mv \<and>
        (\<forall>v \<in> set pre. \<not> backs (productAttributes (Some shirts)) S' v) \<and>
        variantMatch (Some shirts) (productAttributes (Some shirts)) S' =
          Some (Some mv, join '', '' (map attr_name (productAttributes (Some shirts))),
                join '', '' (map (value_name S') (productAttributes (Some shirts)))) \<and>
        (\<forall>(k, y) \<in> set S'. (k, y) \<in> assignments mv))"
proof -
  let ?S = "[(''color'', ''blue''), (''size'', ''s'')]"
  let ?idx = "productAttributes (Some shirts)"
  let ?M = "\<lambda>v. \<forall>k y. ((map_of ?S)(''size'' \<mapsto> ''m'')) k = Some y \<longrightarrow> (k, y) \<in> assignments v"
  have c: "\<exists>variant \<in> set shirts. (''size'', ''m'') \<in> assignments variant"
    by code_simp
  have obj: "is_object ?S"
    by code_simp
  have inv: "\<forall>v \<in> set shirts. one_value_per_attribute v"
    by code_simp
  have j: "\<forall>v \<in> set shirts. joined v"
    by code_simp
  have "\<not> (\<exists>variant \<in> set shirts.
             (''size'', ''m'') \<in> assignments variant \<and>
             (\<forall>(k, y) \<in> set ?S. k \<noteq> ''size'' \<longrightarrow> (k, y) \<in> assignments variant))"
    by code_simp
  then have noexact: "\<not> (\<exists>variant \<in> set shirts. ?M variant)"
    unfolding merged_iff [OF obj] .
  have r0: "handleSelect (Some shirts) ?S ''size'' ''m'' = Inr [(''color'', ''red''), (''size'', ''m'')]"
    by code_simp
  have f0: "full ?idx [(''color'', ''red''), (''size'', ''m'')]"
    by code_simp
  from handleSelect_backed [OF c, of ?S] obtain S' b where
    r: "handleSelect (Some shirts) ?S ''size'' ''m'' = Inr S'" and
    b: "b \<in> set shirts" "(''size'', ''m'') \<in> assignments b"
      "\<forall>(k, y) \<in> set S'. (k, y) \<in> assignments b" and
    look: "one_value_per_attribute b \<longrightarrow> map_of S' ''size'' = Some ''m''" and
    branch: "is_object ?S \<longrightarrow>
       is_object S' \<and>
       (?M b \<and> map_of S' = (map_of ?S)(''size'' \<mapsto> ''m'') \<or>
        \<not> (\<exists>variant \<in> set shirts. ?M variant) \<and>
        (\<exists>pre post.
           shirts = pre @ b # post \<and>
           (\<forall>c \<in> set pre. (''size'', ''m'') \<in> assignments c \<longrightarrow>
              overlap c ''size'' ?S < overlap b ''size'' ?S) \<and>
           (\<forall>c \<in> set post. (''size'', ''m'') \<in> assignments c \<longrightarrow>
              overlap c ''size'' ?S \<le> overlap b ''size'' ?S)) \<and>
        fst ` set S' = fst ` assignments b \<and>
        (one_value_per_attribute b \<longrightarrow> set S' = assignments b))" and
    match: "full ?idx S' \<longrightarrow>
       (\<exists>pre mv post.
          shirts = pre @ mv # post \<and> backs ?idx S' mv \<and> (\<forall>v \<in> set pre. \<not> backs ?idx S' v) \<and>
          variantMatch (Some shirts) ?idx S' =
            Some (Some mv, join '', '' (map attr_name ?idx), join '', '' (map (value_name S') ?idx)) \<and>
          (is_object ?S \<and> joined b \<longrightarrow> (\<forall>(k, y) \<in> set S'. (k, y) \<in> assignments mv)))"
    by blast
  from r r0 have "S' = [(''color'', ''red''), (''size'', ''m'')]"
    by simp
  with f0 have f: "full ?idx S'"
    by simp
  from b(1) inv j have ob: "one_value_per_attribute b" "joined b"
    by blast+
  from look ob have l: "map_of S' ''size'' = Some ''m''"
    by blast
  from branch obj noexact b(1) ob(1) have sw: "is_object S'" "set S' = assignments b"
    "\<exists>pre post.
        shirts = pre @ b # post \<and>
        (\<forall>c \<in> set pre. (''size'', ''m'') \<in> assignments c \<longrightarrow>
           overlap c ''size'' ?S < overlap b ''size'' ?S) \<and>
        (\<forall>c \<in> set post. (''size'', ''m'') \<in> assignments c \<longrightarrow>
           overlap c ''size'' ?S \<le> overlap b ''size'' ?S)"
    by blast+
  from match f obj ob(2) have m: "\<exists>pre mv post.
        shirts = pre @ mv # post \<and> backs ?idx S' mv \<and> (\<forall>v \<in> set pre. \<not> backs ?idx S' v) \<and>
        variantMatch (Some shirts) ?idx S' =
          Some (Some mv, join '', '' (map attr_name ?idx), join '', '' (map (value_name S') ?idx)) \<and>
        (\<forall>(k, y) \<in> set S'. (k, y) \<in> assignments mv)"
    by blast
  from r b l sw m show ?thesis
    by blast
qed

end
